theory Spec2Isabelle
  imports Complex_Main
begin

section \<open>Numbers\<close>

text \<open>
  The scores of \<^verbatim>\<open>src/index.ts\<close> are JavaScript numbers. They are modelled as exact
  rationals together with the three special values a division can produce: the
  rounding of double precision and the sign of zero are left out, \<open>NaN\<close> and the two
  infinities are kept, because \<open>0 / 0\<close> is what the program computes for an empty list.
\<close>

datatype number = NaN | Fin rat | PosInf | NegInf

fun js_neg :: "number \<Rightarrow> number" where
  "js_neg NaN = NaN"
| "js_neg (Fin a) = Fin (- a)"
| "js_neg PosInf = NegInf"
| "js_neg NegInf = PosInf"

fun js_add :: "number \<Rightarrow> number \<Rightarrow> number" where
  "js_add NaN y = NaN"
| "js_add x NaN = NaN"
| "js_add (Fin a) (Fin b) = Fin (a + b)"
| "js_add PosInf NegInf = NaN"
| "js_add NegInf PosInf = NaN"
| "js_add PosInf y = PosInf"
| "js_add x PosInf = PosInf"
| "js_add NegInf y = NegInf"
| "js_add x NegInf = NegInf"

definition js_sub :: "number \<Rightarrow> number \<Rightarrow> number" where
  "js_sub x y = js_add x (js_neg y)"

fun js_sign :: "number \<Rightarrow> int" where
  "js_sign NaN = 0"
| "js_sign (Fin a) = (if a < 0 then - 1 else if a = 0 then 0 else 1)"
| "js_sign PosInf = 1"
| "js_sign NegInf = - 1"

definition js_inf :: "int \<Rightarrow> number" where
  "js_inf sg = (if sg < 0 then NegInf else PosInf)"

fun js_mul :: "number \<Rightarrow> number \<Rightarrow> number" where
  "js_mul NaN y = NaN"
| "js_mul x NaN = NaN"
| "js_mul (Fin a) (Fin b) = Fin (a * b)"
| "js_mul x y = (if js_sign x * js_sign y = 0 then NaN else js_inf (js_sign x * js_sign y))"

fun js_div :: "number \<Rightarrow> number \<Rightarrow> number" where
  "js_div NaN y = NaN"
| "js_div x NaN = NaN"
| "js_div (Fin a) (Fin b) =
     (if b = 0 then (if a = 0 then NaN else js_inf (js_sign (Fin a))) else Fin (a / b))"
| "js_div (Fin a) y = Fin 0"
| "js_div x (Fin b) = js_inf (js_sign x * (if b < 0 then - 1 else 1))"
| "js_div x y = NaN"

text \<open>\<^verbatim>\<open>Math.min\<close> of two arguments.\<close>

fun js_min :: "number \<Rightarrow> number \<Rightarrow> number" where
  "js_min NaN y = NaN"
| "js_min x NaN = NaN"
| "js_min (Fin a) (Fin b) = Fin (min a b)"
| "js_min NegInf y = NegInf"
| "js_min x NegInf = NegInf"
| "js_min PosInf y = y"
| "js_min x PosInf = x"

text \<open>The comparison \<^verbatim>\<open>x > y\<close>: false as soon as one side is \<open>NaN\<close>.\<close>

fun js_gt :: "number \<Rightarrow> number \<Rightarrow> bool" where
  "js_gt NaN y = False"
| "js_gt x NaN = False"
| "js_gt (Fin a) (Fin b) = (b < a)"
| "js_gt PosInf PosInf = False"
| "js_gt PosInf y = True"
| "js_gt x PosInf = False"
| "js_gt NegInf y = False"
| "js_gt x NegInf = True"

text \<open>A \<^verbatim>\<open>length\<close> read as a number.\<close>

definition of_length :: "nat \<Rightarrow> number" where
  "of_length n = Fin (of_nat n)"

section \<open>Characters and strings\<close>

text \<open>
  Text is modelled over ASCII. \<open>isSpace\<close> is the class \<^verbatim>\<open>\s\<close> of the regular
  expressions (tab, line feed, vertical tab, form feed, carriage return, space),
  \<open>isDigit\<close> is \<^verbatim>\<open>\d\<close>, and the two case mappings change the 26 letters only.
\<close>

definition isSpace :: "char \<Rightarrow> bool" where
  "isSpace c = (let n = (of_char c :: nat) in (9 \<le> n \<and> n \<le> 13) \<or> n = 32)"

definition isDigit :: "char \<Rightarrow> bool" where
  "isDigit c = (let n = (of_char c :: nat) in 48 \<le> n \<and> n \<le> 57)"

definition toUpperChar :: "char \<Rightarrow> char" where
  "toUpperChar c =
     (let n = (of_char c :: nat) in if 97 \<le> n \<and> n \<le> 122 then char_of (n - 32) else c)"

definition toLowerChar :: "char \<Rightarrow> char" where
  "toLowerChar c =
     (let n = (of_char c :: nat) in if 65 \<le> n \<and> n \<le> 90 then char_of (n + 32) else c)"

text \<open>\<^verbatim>\<open>String.prototype.toLowerCase\<close>.\<close>

definition toLowerCase :: "string \<Rightarrow> string" where
  "toLowerCase s = map toLowerChar s"

text \<open>
  \<^verbatim>\<open>text.split(/\s+/)\<close>: the pieces between the maximal runs of white space. A run
  at the start or at the end of the text leaves an empty piece there, and the empty
  text gives one empty piece.
\<close>

function split_ws :: "string \<Rightarrow> string \<Rightarrow> string list" where
  "split_ws piece [] = [rev piece]"
| "split_ws piece (c # cs) =
     (if isSpace c then rev piece # split_ws [] (dropWhile isSpace cs)
      else split_ws (c # piece) cs)"
  by pat_completeness auto
termination
  by (relation "measure (\<lambda>(piece, text). length text)")
     (auto simp: less_Suc_eq_le length_dropWhile_le)

text \<open>\<^verbatim>\<open>text.split(/\s+/).filter((word) => word.length > 0)\<close>\<close>

definition words_of :: "string \<Rightarrow> string list" where
  "words_of text = filter (\<lambda>word. length word > 0) (split_ws [] text)"

text \<open>A non-negative integer in a template string, and a signed one.\<close>

fun show_nat :: "nat \<Rightarrow> string" where
  "show_nat n =
     (if n < 10 then [char_of (48 + n)]
      else show_nat (n div 10) @ [char_of (48 + n mod 10)])"

definition show_int :: "int \<Rightarrow> string" where
  "show_int i = (if i < 0 then CHR ''-'' # show_nat (nat (- i)) else show_nat (nat i))"

text \<open>\<^verbatim>\<open>Array.prototype.join\<close>\<close>

fun join :: "string \<Rightarrow> string list \<Rightarrow> string" where
  "join sep [] = []"
| "join sep [x] = x"
| "join sep (x # y # ys) = x @ sep @ join sep (y # ys)"

section \<open>Regular expressions\<close>

text \<open>
  The two regular expressions of \<^verbatim>\<open>evaluateSection\<close> are sequences of items, an item
  being one atom or a greedy repetition \<^verbatim>\<open>+\<close> of an atom, and an atom a literal
  character, \<^verbatim>\<open>\d\<close> or \<^verbatim>\<open>\s\<close>. \<open>matchHere\<close> is the backtracking matcher at a fixed
  start: a repetition first takes every character it can and gives them back one at
  a time while the rest of the expression fails. It returns the length of the
  matched text. With the flag \<^verbatim>\<open>i\<close> (\<open>ci\<close>) two characters are equal when their upper
  case forms are.
\<close>

datatype atom = Chr char | Digit | Space

datatype item = One atom | Plus atom

type_synonym regex = "item list"

fun atom_ok :: "bool \<Rightarrow> atom \<Rightarrow> char \<Rightarrow> bool" where
  "atom_ok ci (Chr a) c = (if ci then toUpperChar a = toUpperChar c else a = c)"
| "atom_ok ci Digit c = isDigit c"
| "atom_ok ci Space c = isSpace c"

fun first_some :: "'a option list \<Rightarrow> 'a option" where
  "first_some [] = None"
| "first_some (None # xs) = first_some xs"
| "first_some (Some x # xs) = Some x"

fun matchHere :: "bool \<Rightarrow> regex \<Rightarrow> string \<Rightarrow> nat option" where
  "matchHere ci [] xs = Some 0"
| "matchHere ci (One a # r) [] = None"
| "matchHere ci (One a # r) (c # cs) =
     (if atom_ok ci a c then map_option Suc (matchHere ci r cs) else None)"
| "matchHere ci (Plus a # r) xs =
     first_some
       (map (\<lambda>k. map_option (\<lambda>l. k + l) (matchHere ci r (drop k xs)))
            (rev [1 ..< Suc (length (takeWhile (atom_ok ci a) xs))]))"

text \<open>
  \<^verbatim>\<open>text.match(regex)\<close> for a regular expression without the flag \<^verbatim>\<open>g\<close>: the match at
  the leftmost start that has one, as its \<^verbatim>\<open>index\<close> and the length of the matched text
  \<^verbatim>\<open>match[0]\<close>; \<open>None\<close> is \<^verbatim>\<open>null\<close>.
\<close>

fun regex_match :: "bool \<Rightarrow> regex \<Rightarrow> string \<Rightarrow> (nat \<times> nat) option" where
  "regex_match ci re [] = map_option (\<lambda>l. (0, l)) (matchHere ci re [])"
| "regex_match ci re (c # cs) =
     (case matchHere ci re (c # cs) of
        Some l \<Rightarrow> Some (0, l)
      | None \<Rightarrow> map_option (\<lambda>(i, l). (Suc i, l)) (regex_match ci re cs))"

text \<open>\<^verbatim>\<open>/## \d+\.\s+/\<close>\<close>

definition headerRegex :: regex where
  "headerRegex =
     [One (Chr CHR ''#''), One (Chr CHR ''#''), One (Chr CHR '' ''), Plus Digit,
      One (Chr CHR ''.''), Plus Space]"

text \<open>
  \<^verbatim>\<open>new RegExp(`## \\d+\\.\\s+${section.name}`, "i")\<close>. The name is spliced into the
  source of the expression; \<open>sectionRegex\<close> is that expression for a name that is plain
  text, which \<open>plain_name\<close> says: no character of the name is one the syntax of
  regular expressions reads as an operator. The names of \<open>projectOverviewType\<close> are
  plain. What is proved below about the search for a section is proved for plain
  names; the arithmetic of the scores is the same whatever text the search returns.
\<close>

definition sectionRegex :: "string \<Rightarrow> regex" where
  "sectionRegex name = headerRegex @ map (\<lambda>c. One (Chr c)) name"

definition plain_name :: "string \<Rightarrow> bool" where
  "plain_name name = list_all (\<lambda>c. c \<notin> set (CHR 0x5C # ''^$.|?*+()[]{}'')) name"

section \<open>The rubric and the result\<close>

record Section =
  name :: string
  requiredKeywords :: "string list"
  minWordCount :: int

record DocumentType =
  name :: string
  sections :: "Section list"
  overallMinWordCount :: int

record EvaluationResult =
  documentType :: string
  overallScore :: number
  sectionScores :: "string \<rightharpoonup> number"
  feedback :: "string list"
  missingKeywords :: "string \<rightharpoonup> string list"
  wordCount :: nat

text \<open>The object \<^verbatim>\<open>{ score, feedback, missingKeywords }\<close> that \<^verbatim>\<open>evaluateSection\<close> returns.\<close>

record SectionResult =
  score :: number
  feedback :: string
  missingKeywords :: "string list"

definition projectOverviewType :: DocumentType where
  "projectOverviewType =
     \<lparr>DocumentType.name = ''Project Overview'',
      sections =
        [\<lparr>Section.name = ''Introduction'',
          requiredKeywords = [''purpose'', ''scope'', ''objectives''], minWordCount = 100\<rparr>,
         \<lparr>Section.name = ''Key Features'',
          requiredKeywords = [''functionality'', ''benefits'', ''unique''], minWordCount = 150\<rparr>,
         \<lparr>Section.name = ''Target User'',
          requiredKeywords = [''audience'', ''user'', ''demographic''], minWordCount = 75\<rparr>,
         \<lparr>Section.name = ''User Access Levels'',
          requiredKeywords = [''roles'', ''permissions'', ''admin''], minWordCount = 100\<rparr>,
         \<lparr>Section.name = ''Purpose'',
          requiredKeywords = [''goal'', ''aim'', ''objective''], minWordCount = 75\<rparr>,
         \<lparr>Section.name = ''Technology Stack'',
          requiredKeywords = [''frontend'', ''backend'', ''database''], minWordCount = 100\<rparr>,
         \<lparr>Section.name = ''Conclusion'',
          requiredKeywords = [''summary'', ''future'', ''next steps''], minWordCount = 75\<rparr>],
      overallMinWordCount = 500\<rparr>"

section \<open>The keyword extractor\<close>

text \<open>
  \<^verbatim>\<open>keyword_extractor.extract\<close> belongs to the package \<^verbatim>\<open>keyword-extractor\<close>, which the
  program imports. The functions below take it as their first argument \<open>ke\<close>;
  \<open>extractKeywords\<close> calls it with the options of the source.
\<close>

record ExtractOptions =
  language :: string
  remove_digits :: bool
  return_changed_case :: bool
  remove_duplicates :: bool

type_synonym keyword_extractor = "string \<Rightarrow> ExtractOptions \<Rightarrow> string list"

definition extractKeywords :: "keyword_extractor \<Rightarrow> string \<Rightarrow> string list" where
  "extractKeywords ke text =
     ke text \<lparr>language = ''english'', remove_digits = True, return_changed_case = True,
              remove_duplicates = True\<rparr>"

text \<open>
  Modelled from the spec: \<^verbatim>\<open>keyword_extractor.extract\<close>, whose code is not part of the
  sources. The spec says of it that it "extracts normalized keyword tokens from the
  section body (deduplicated, lowercased)"; the options are read by their names. The
  tokens are the words of the text; a word of digits only is dropped, the words are
  put in lower case, and of equal words the first is kept.
\<close>

definition keyword_extractor_spec :: keyword_extractor where
  "keyword_extractor_spec text opts =
     (let tokens = words_of text;
          tokens = (if remove_digits opts then filter (\<lambda>w. \<not> list_all isDigit w) tokens
                    else tokens);
          tokens = (if return_changed_case opts then map toLowerCase tokens else tokens)
      in if remove_duplicates opts then rev (remdups (rev tokens)) else tokens)"

section \<open>Scoring a section\<close>

text \<open>
  Lines 136 to 152 of \<^verbatim>\<open>evaluateSection\<close>: the text of the section, from the first
  match of the section's expression to the next match of \<^verbatim>\<open>/## \d+\.\s+/\<close> behind it,
  or to the end. \<open>None\<close> when \<^verbatim>\<open>sectionMatch\<close> is \<^verbatim>\<open>null\<close>.
\<close>

definition locateSection :: "string \<Rightarrow> Section \<Rightarrow> string option" where
  "locateSection content section =
     (case regex_match True (sectionRegex (Section.name section)) content of
        None \<Rightarrow> None
      | Some (index, len) \<Rightarrow>
          (let sectionContent = drop index content;
               nextSectionMatch = regex_match False headerRegex (drop len sectionContent)
           in Some (case nextSectionMatch of
                      Some (nextIndex, nextLen) \<Rightarrow> take (nextIndex + len) sectionContent
                    | None \<Rightarrow> sectionContent)))"

text \<open>\<^verbatim>\<open>const keywordScore = 1 - missingKeywords.length / section.requiredKeywords.length\<close>\<close>

definition keywordScore :: "string list \<Rightarrow> Section \<Rightarrow> number" where
  "keywordScore missing section =
     js_sub (Fin 1)
       (js_div (of_length (length missing)) (of_length (length (requiredKeywords section))))"

text \<open>Lines 154 to 180: the score of the section's text.\<close>

definition scoreSectionText :: "keyword_extractor \<Rightarrow> string \<Rightarrow> Section \<Rightarrow> SectionResult" where
  "scoreSectionText ke sectionText section =
     (let words = words_of sectionText;
          keywordsFound = extractKeywords ke sectionText;
          missing = filter (\<lambda>keyword. toLowerCase keyword \<notin> set keywordsFound)
                      (requiredKeywords section);
          enough = (minWordCount section \<le> int (length words));
          score0 = (if enough then js_add (Fin 0) (Fin (1 / 2)) else Fin 0);
          feedback0 =
            (if enough
             then ''Word count requirement met ('' @ show_nat (length words) @ '' words). ''
             else ''Word count below minimum ('' @ show_nat (length words) @ ''/'' @
                  show_int (minWordCount section) @ ''). '');
          score1 = js_add score0 (js_mul (keywordScore missing section) (Fin (1 / 2)));
          feedback1 =
            feedback0 @
            (if length missing = 0 then ''All required keywords found. ''
             else ''Missing keywords: '' @ join '', '' missing @ ''. '')
      in \<lparr>score = score1, feedback = feedback1, missingKeywords = missing\<rparr>)"

definition evaluateSection :: "keyword_extractor \<Rightarrow> string \<Rightarrow> Section \<Rightarrow> SectionResult" where
  "evaluateSection ke content section =
     (case locateSection content section of
        None \<Rightarrow>
          \<lparr>score = Fin 0,
           feedback = ''Section '' @ [CHR 0x22] @ Section.name section @ [CHR 0x22] @
                      '' is missing.'',
           missingKeywords = requiredKeywords section\<rparr>
      | Some sectionText \<Rightarrow> scoreSectionText ke sectionText section)"

section \<open>Scoring the document\<close>

text \<open>
  The body of the \<^verbatim>\<open>forEach\<close> of \<^verbatim>\<open>evaluateDocument\<close>. The four variables it updates
  are the fields of the result under construction.
\<close>

definition evaluateDocument_section ::
  "keyword_extractor \<Rightarrow> string \<Rightarrow> EvaluationResult \<Rightarrow> Section \<Rightarrow> EvaluationResult" where
  "evaluateDocument_section ke content st section =
     (let r = evaluateSection ke content section
      in st\<lparr>sectionScores := (sectionScores st)(Section.name section \<mapsto> score r),
            EvaluationResult.feedback :=
              EvaluationResult.feedback st @
              [Section.name section @ '': '' @ SectionResult.feedback r],
            EvaluationResult.missingKeywords :=
              (if length (SectionResult.missingKeywords r) > 0
               then (EvaluationResult.missingKeywords st)
                      (Section.name section \<mapsto> SectionResult.missingKeywords r)
               else EvaluationResult.missingKeywords st),
            overallScore := js_add (overallScore st) (score r)\<rparr>)"

definition evaluateDocument :: "keyword_extractor \<Rightarrow> string \<Rightarrow> DocumentType \<Rightarrow> EvaluationResult" where
  "evaluateDocument ke content dt =
     (let words = words_of content;
          st0 = \<lparr>documentType = DocumentType.name dt, overallScore = Fin 0,
                 sectionScores = Map.empty, feedback = [], missingKeywords = Map.empty,
                 wordCount = length words\<rparr>;
          st1 = foldl (evaluateDocument_section ke content) st0 (sections dt);
          average = js_div (overallScore st1) (of_length (length (sections dt)));
          enough = (overallMinWordCount dt \<le> int (length words));
          total = (if enough then js_add average (Fin (1 / 10)) else average);
          line =
            (if enough
             then ''Overall word count requirement met ('' @ show_nat (length words) @
                  '' words).''
             else ''Overall word count below minimum ('' @ show_nat (length words) @ ''/'' @
                  show_int (overallMinWordCount dt) @ '').'')
      in st1\<lparr>overallScore := js_mul (js_min total (Fin 1)) (Fin 100),
             EvaluationResult.feedback := EvaluationResult.feedback st1 @ [line]\<rparr>)"

section \<open>The properties, in the words of the spec\<close>

text \<open>The average of a list of scores, and the overall score as the spec gives it.\<close>

definition average :: "number list \<Rightarrow> number" where
  "average xs = js_div (foldr js_add xs (Fin 0)) (of_length (length xs))"

definition spec_overallScore :: "keyword_extractor \<Rightarrow> string \<Rightarrow> DocumentType \<Rightarrow> number" where
  "spec_overallScore ke content dt =
     js_mul
       (js_min
          (js_add (average (map (\<lambda>s. score (evaluateSection ke content s)) (sections dt)))
                  (if overallMinWordCount dt \<le> int (length (words_of content))
                   then Fin (1 / 10) else Fin 0))
          (Fin 1))
       (Fin 100)"

text \<open>A required keyword is found in the text of a section.\<close>

definition keywordFound :: "keyword_extractor \<Rightarrow> string \<Rightarrow> string \<Rightarrow> bool" where
  "keywordFound ke sectionText keyword \<longleftrightarrow>
     toLowerCase keyword \<in> set (extractKeywords ke sectionText)"

text \<open>
  The score of a section as the spec gives it: half a point for the word count and
  half a point times the share of the required keywords that are found; nothing for a
  section that is absent.
\<close>

definition spec_sectionScore :: "keyword_extractor \<Rightarrow> string \<Rightarrow> Section \<Rightarrow> rat" where
  "spec_sectionScore ke content s =
     (case locateSection content s of
        None \<Rightarrow> 0
      | Some t \<Rightarrow>
          (if minWordCount s \<le> int (length (words_of t)) then 1 / 2 else 0) +
          1 / 2 * (of_nat (length (filter (keywordFound ke t) (requiredKeywords s))) /
                   of_nat (length (requiredKeywords s))))"


text \<open>
  A section is present with at least its minimum word count and all of its required
  keywords.
\<close>

definition meets_section :: "keyword_extractor \<Rightarrow> string \<Rightarrow> Section \<Rightarrow> bool" where
  "meets_section ke content s =
     (case locateSection content s of
        None \<Rightarrow> False
      | Some t \<Rightarrow> minWordCount s \<le> int (length (words_of t)) \<and>
                 list_all (keywordFound ke t) (requiredKeywords s))"

text \<open>Two texts that differ in the case of their letters only.\<close>

definition same_letters :: "string \<Rightarrow> string \<Rightarrow> bool" where
  "same_letters a b \<longleftrightarrow> map toUpperChar a = map toUpperChar b"

text \<open>
  A header of a section, "## <number>. <Section Name>": two hash signs and a space, one
  or more digits, a full stop, one or more white space characters and the name of the
  section in any letter case. With the empty name this is the pattern "## <number>. "
  that starts every section.
\<close>

definition is_header :: "string \<Rightarrow> string \<Rightarrow> bool" where
  "is_header title h \<longleftrightarrow>
     (\<exists>ds ws nm. h = ''## '' @ ds @ ''.'' @ ws @ nm \<and>
        ds \<noteq> [] \<and> list_all isDigit ds \<and> ws \<noteq> [] \<and> list_all isSpace ws \<and>
        same_letters nm title)"

text \<open>The text \<open>h\<close> is a header for \<open>title\<close> and stands in the document at index \<open>i\<close>.\<close>

definition header_at :: "string \<Rightarrow> string \<Rightarrow> nat \<Rightarrow> string \<Rightarrow> bool" where
  "header_at title content i h \<longleftrightarrow> is_header title h \<and> take (length h) (drop i content) = h"

definition no_header :: "string \<Rightarrow> string \<Rightarrow> bool" where
  "no_header title content \<longleftrightarrow> (\<forall>i h. \<not> header_at title content i h)"

text \<open>The index \<open>i\<close> is the first one at which the document has a header for \<open>title\<close>.\<close>

definition first_header_at :: "string \<Rightarrow> string \<Rightarrow> nat \<Rightarrow> bool" where
  "first_header_at title content i \<longleftrightarrow>
     (\<exists>h. header_at title content i h) \<and> (\<forall>j<i. \<forall>h. \<not> header_at title content j h)"

text \<open>Of the headers for \<open>title\<close> at index \<open>i\<close>, \<open>h\<close> is the longest.\<close>

definition longest_header_at :: "string \<Rightarrow> string \<Rightarrow> nat \<Rightarrow> string \<Rightarrow> bool" where
  "longest_header_at title content i h \<longleftrightarrow>
     header_at title content i h \<and> (\<forall>h'. header_at title content i h' \<longrightarrow> length h' \<le> length h)"

text \<open>
  The section that starts before \<open>start\<close> ends at \<open>e\<close>: at the first index from \<open>start\<close> on
  where a header "## <number>. " stands, or at the end of the document when there is
  none.
\<close>

definition section_end :: "string \<Rightarrow> nat \<Rightarrow> nat \<Rightarrow> bool" where
  "section_end content start e \<longleftrightarrow>
     start \<le> e \<and> e \<le> length content \<and>
     (\<forall>p. start \<le> p \<and> p < e \<longrightarrow> (\<forall>g. \<not> header_at [] content p g)) \<and>
     (e = length content \<or> (\<exists>g. header_at [] content e g))"

text \<open>
  What the properties below ask of the keyword extractor: that its tokens hold no
  white space, and that it does not tell texts apart that differ in letter case only.
\<close>

definition has_whitespace :: "string \<Rightarrow> bool" where
  "has_whitespace w = list_ex isSpace w"

definition whitespace_free_tokens :: "keyword_extractor \<Rightarrow> bool" where
  "whitespace_free_tokens ke \<longleftrightarrow>
     (\<forall>text. list_all (\<lambda>w. \<not> has_whitespace w) (extractKeywords ke text))"

definition case_insensitive_extractor :: "keyword_extractor \<Rightarrow> bool" where
  "case_insensitive_extractor ke \<longleftrightarrow>
     (\<forall>t t'. same_letters t t' \<longrightarrow> set (extractKeywords ke t) = set (extractKeywords ke t'))"

text \<open>What the keywords of a section add to its score, from the keywords reported missing.\<close>

definition keywordContribution :: "SectionResult \<Rightarrow> Section \<Rightarrow> number" where
  "keywordContribution r s = js_mul (keywordScore (SectionResult.missingKeywords r) s) (Fin (1 / 2))"

section \<open>Arithmetic of the scores\<close>

lemma js_add_zero_right: "js_add x (Fin 0) = x"
  by (cases x) simp_all

lemma js_add_zero_left: "js_add (Fin 0) x = x"
  by (cases x) simp_all

lemma js_add_assoc: "js_add (js_add x y) z = js_add x (js_add y z)"
  by (cases x; cases y; cases z) simp_all

lemma foldl_js_add: "foldl js_add a xs = js_add a (foldr js_add xs (Fin 0))"
  by (induction xs arbitrary: a) (simp_all add: js_add_zero_right js_add_assoc)

lemma capped_percentage: "\<not> js_gt (js_mul (js_min x (Fin 1)) (Fin 100)) (Fin 100)"
  by (cases x) (simp_all add: js_inf_def min_def)

lemma evaluateDocument_section_overallScore:
  "overallScore (evaluateDocument_section ke content st s) =
     js_add (overallScore st) (score (evaluateSection ke content s))"
  by (simp add: evaluateDocument_section_def Let_def)

lemma foldl_overallScore:
  "overallScore (foldl (evaluateDocument_section ke content) st ss) =
     foldl js_add (overallScore st) (map (\<lambda>s. score (evaluateSection ke content s)) ss)"
  by (induction ss arbitrary: st) (simp_all add: evaluateDocument_section_overallScore)

lemma evaluateDocument_overallScore:
  "overallScore (evaluateDocument ke content dt) =
     js_mul
       (js_min
          (let average =
                 js_div
                   (foldl js_add (Fin 0)
                      (map (\<lambda>s. score (evaluateSection ke content s)) (sections dt)))
                   (of_length (length (sections dt)))
           in if overallMinWordCount dt \<le> int (length (words_of content))
              then js_add average (Fin (1 / 10)) else average)
          (Fin 1))
       (Fin 100)"
  by (simp add: evaluateDocument_def Let_def foldl_overallScore)

lemma keywordScore_Fin:
  "requiredKeywords s \<noteq> [] \<Longrightarrow>
   keywordScore missing s =
     Fin (1 - of_nat (length missing) / of_nat (length (requiredKeywords s)))"
  by (simp add: keywordScore_def js_sub_def of_length_def)

lemma scoreSectionText_missing:
  "SectionResult.missingKeywords (scoreSectionText ke t s) =
     filter (\<lambda>k. \<not> keywordFound ke t k) (requiredKeywords s)"
  by (simp add: scoreSectionText_def Let_def keywordFound_def)

lemma scoreSectionText_score:
  assumes "requiredKeywords s \<noteq> []"
  shows "score (scoreSectionText ke t s) =
     Fin ((if minWordCount s \<le> int (length (words_of t)) then 1 / 2 else 0) +
          (1 - of_nat (length (SectionResult.missingKeywords (scoreSectionText ke t s))) /
               of_nat (length (requiredKeywords s))) * (1 / 2))"
  using assms by (simp add: scoreSectionText_def Let_def keywordScore_Fin)

lemma missing_length:
  "length (SectionResult.missingKeywords (scoreSectionText ke t s)) =
     length (requiredKeywords s) - length (filter (keywordFound ke t) (requiredKeywords s))"
proof -
  have "length (filter (keywordFound ke t) (requiredKeywords s)) +
        length (filter (\<lambda>k. \<not> keywordFound ke t k) (requiredKeywords s)) =
        length (requiredKeywords s)"
    by (rule sum_length_filter_compl)
  then show ?thesis
    by (simp add: scoreSectionText_missing)
qed

lemma scoreSectionText_spec:
  assumes "requiredKeywords s \<noteq> []"
  shows "score (scoreSectionText ke t s) =
     Fin ((if minWordCount s \<le> int (length (words_of t)) then 1 / 2 else 0) +
          1 / 2 * (of_nat (length (filter (keywordFound ke t) (requiredKeywords s))) /
                   of_nat (length (requiredKeywords s))))"
proof -
  let ?n = "length (requiredKeywords s)"
  let ?f = "length (filter (keywordFound ke t) (requiredKeywords s))"
  have n: "0 < ?n" using assms by simp
  have le: "?f \<le> ?n" by (rule length_filter_le)
  have "(1 - of_nat (?n - ?f) / of_nat ?n :: rat) = of_nat ?f / of_nat ?n"
    using n le by (simp add: field_simps)
  then show ?thesis
    using assms by (simp add: scoreSectionText_score missing_length)
qed

lemma spec_sectionScore_range:
  "0 \<le> spec_sectionScore ke content s \<and> spec_sectionScore ke content s \<le> 1"
proof (cases "locateSection content s")
  case None
  then show ?thesis by (simp add: spec_sectionScore_def)
next
  case (Some t)
  let ?n = "length (requiredKeywords s)"
  let ?f = "length (filter (keywordFound ke t) (requiredKeywords s))"
  have le: "?f \<le> ?n" by (rule length_filter_le)
  have "(0::rat) \<le> of_nat ?f / of_nat ?n" by simp
  moreover have "(of_nat ?f / of_nat ?n :: rat) \<le> 1"
    using le by (cases "?n = 0") (simp_all add: divide_le_eq_1)
  ultimately show ?thesis using Some by (simp add: spec_sectionScore_def)
qed

lemma evaluateSection_spec:
  assumes "requiredKeywords s \<noteq> []"
  shows "score (evaluateSection ke content s) = Fin (spec_sectionScore ke content s)"
  using assms
  by (cases "locateSection content s")
     (simp_all add: evaluateSection_def spec_sectionScore_def scoreSectionText_spec)

lemma meets_section_score:
  assumes "requiredKeywords s \<noteq> []" and "meets_section ke content s"
  shows "score (evaluateSection ke content s) = Fin 1"
proof -
  from assms(2) obtain t where t: "locateSection content s = Some t"
    and w: "minWordCount s \<le> int (length (words_of t))"
    and k: "list_all (keywordFound ke t) (requiredKeywords s)"
    by (auto simp: meets_section_def split: option.splits)
  from k have "filter (keywordFound ke t) (requiredKeywords s) = requiredKeywords s"
    by (simp add: list_all_iff)
  with assms(1) t w show ?thesis
    by (simp add: evaluateSection_spec spec_sectionScore_def)
qed

lemma sum_scores:
  assumes "list_all (\<lambda>s. requiredKeywords s \<noteq> []) ss"
  shows "foldr js_add (map (\<lambda>s. score (evaluateSection ke content s)) ss) (Fin 0) =
         Fin (sum_list (map (spec_sectionScore ke content) ss))"
  using assms by (induction ss) (simp_all add: evaluateSection_spec)

lemma sum_list_spec_bounds:
  "0 \<le> sum_list (map (spec_sectionScore ke content) ss) \<and>
   sum_list (map (spec_sectionScore ke content) ss) \<le> of_nat (length ss)"
proof (induction ss)
  case Nil
  show ?case by simp
next
  case (Cons s ss)
  with spec_sectionScore_range [of ke content s] show ?case by simp
qed

lemma sum_scores_complete:
  assumes "list_all (\<lambda>s. requiredKeywords s \<noteq> []) ss"
    and "list_all (meets_section ke content) ss"
  shows "foldr js_add (map (\<lambda>s. score (evaluateSection ke content s)) ss) (Fin 0) =
         Fin (of_nat (length ss))"
  using assms by (induction ss) (simp_all add: meets_section_score add.commute)

section \<open>The overall score\<close>

text \<open>
  Claim C8. For every document and every rubric, the overall score that
  \<open>evaluateDocument\<close> returns never exceeds 100: the comparison \<^verbatim>\<open>overallScore > 100\<close> is
  false, whatever the sections score.
\<close>

theorem overallScore_never_exceeds_100:
  "\<not> js_gt (overallScore (evaluateDocument ke content dt)) (Fin 100)"
  unfolding evaluateDocument_overallScore by (rule capped_percentage)

theorem overallScore_never_exceeds_100_witness:
  "\<not> js_gt
       (overallScore
          (evaluateDocument keyword_extractor_spec
             ''## 7. Conclusion summary future next steps'' projectOverviewType))
       (Fin 100)"
  by (rule overallScore_never_exceeds_100)

text \<open>
  Claim C2. For every document and every rubric, the overall score of \<open>evaluateDocument\<close>
  is the minimum of 1 and the average of the scores of the sections plus 0.1 when the
  word count of the document reaches the overall minimum word count (plus 0 otherwise),
  multiplied by 100. The loop of the program adds the scores up from the left and
  divides afterwards; \<open>spec_overallScore\<close> is the formula of the spec.
\<close>

theorem overallScore_formula:
  "overallScore (evaluateDocument ke content dt) = spec_overallScore ke content dt"
  by (simp add: evaluateDocument_overallScore spec_overallScore_def average_def Let_def
      foldl_js_add js_add_zero_left js_add_zero_right)

theorem overallScore_formula_witness:
  "overallScore
     (evaluateDocument keyword_extractor_spec ''## 1. Intro The PURPOSE and scope''
        \<lparr>DocumentType.name = ''Note'',
         sections =
           [\<lparr>Section.name = ''Intro'', requiredKeywords = [''purpose'', ''aim''],
             minWordCount = 4\<rparr>,
            \<lparr>Section.name = ''Outro'', requiredKeywords = [''summary''],
             minWordCount = 1\<rparr>],
         overallMinWordCount = 5\<rparr>) = Fin (95 / 2) \<and>
   spec_overallScore keyword_extractor_spec ''## 1. Intro The PURPOSE and scope''
        \<lparr>DocumentType.name = ''Note'',
         sections =
           [\<lparr>Section.name = ''Intro'', requiredKeywords = [''purpose'', ''aim''],
             minWordCount = 4\<rparr>,
            \<lparr>Section.name = ''Outro'', requiredKeywords = [''summary''],
             minWordCount = 1\<rparr>],
         overallMinWordCount = 5\<rparr> = Fin (95 / 2)"
proof -
  let ?dt = "\<lparr>DocumentType.name = ''Note'',
         sections =
           [\<lparr>Section.name = ''Intro'', requiredKeywords = [''purpose'', ''aim''],
             minWordCount = 4\<rparr>,
            \<lparr>Section.name = ''Outro'', requiredKeywords = [''summary''],
             minWordCount = 1\<rparr>],
         overallMinWordCount = 5\<rparr>"
  have "spec_overallScore keyword_extractor_spec ''## 1. Intro The PURPOSE and scope'' ?dt =
        Fin (95 / 2)"
    by code_simp
  then show ?thesis
    using overallScore_formula
      [of keyword_extractor_spec "''## 1. Intro The PURPOSE and scope''" ?dt]
    by simp
qed

text \<open>
  Claim C10. \<open>evaluateDocument\<close> divides the sum of the section scores by the number of
  sections of the rubric without a guard. As amended: when the rubric has at least one
  section and every section has at least one required keyword, the overall score is a
  number between 0 and 100; when the rubric has no section, the overall score is \<open>NaN\<close>.
  The claim asked for one section only: a section without required keywords scores
  \<open>0 / 0\<close>, and so does the document.
\<close>

theorem overallScore_range:
  "(sections dt \<noteq> [] \<and> list_all (\<lambda>s. requiredKeywords s \<noteq> []) (sections dt) \<longrightarrow>
      (\<exists>q. overallScore (evaluateDocument ke content dt) = Fin q \<and> 0 \<le> q \<and> q \<le> 100)) \<and>
   (sections dt = [] \<longrightarrow> overallScore (evaluateDocument ke content dt) = NaN)"
proof (intro conjI impI)
  assume a: "sections dt \<noteq> [] \<and> list_all (\<lambda>s. requiredKeywords s \<noteq> []) (sections dt)"
  let ?n = "length (sections dt)"
  let ?sum = "sum_list (map (spec_sectionScore ke content) (sections dt))"
  have n: "0 < ?n" using a by simp
  have b: "0 \<le> ?sum" "?sum \<le> of_nat ?n"
    using sum_list_spec_bounds [of ke content "sections dt"] by simp_all
  have avg0: "0 \<le> ?sum / of_nat ?n" using b(1) by simp
  define total where "total = ?sum / of_nat ?n +
    (if overallMinWordCount dt \<le> int (length (words_of content)) then 1 / 10 else 0)"
  have t0: "0 \<le> total" using avg0 by (simp add: total_def)
  have eq: "overallScore (evaluateDocument ke content dt) = Fin (min total 1 * 100)"
    using a n
    by (simp add: evaluateDocument_overallScore foldl_js_add js_add_zero_left sum_scores
        of_length_def total_def)
  have "0 \<le> min total 1 * 100" using t0 by simp
  moreover have "min total 1 * 100 \<le> 100" by simp
  ultimately show
    "\<exists>q. overallScore (evaluateDocument ke content dt) = Fin q \<and> 0 \<le> q \<and> q \<le> 100"
    using eq by blast
next
  assume "sections dt = []"
  then show "overallScore (evaluateDocument ke content dt) = NaN"
    by (simp add: evaluateDocument_overallScore of_length_def)
qed

theorem overallScore_range_witness:
  "(\<exists>q. overallScore
          (evaluateDocument keyword_extractor_spec
             ''## 7. Conclusion summary future next steps'' projectOverviewType) = Fin q \<and>
        0 \<le> q \<and> q \<le> 100) \<and>
   overallScore
     (evaluateDocument keyword_extractor_spec ''## 1. Intro''
        \<lparr>DocumentType.name = ''Empty'', sections = [], overallMinWordCount = 0\<rparr>) = NaN"
proof -
  have h: "sections projectOverviewType \<noteq> [] \<and>
           list_all (\<lambda>s. requiredKeywords s \<noteq> []) (sections projectOverviewType)"
    by (simp add: projectOverviewType_def)
  have e: "sections \<lparr>DocumentType.name = ''Empty'', sections = [],
                     overallMinWordCount = 0\<rparr> = []"
    by simp
  show ?thesis
    using overallScore_range [of projectOverviewType keyword_extractor_spec
            "''## 7. Conclusion summary future next steps''"]
          overallScore_range [of "\<lparr>DocumentType.name = ''Empty'', sections = [],
            overallMinWordCount = 0\<rparr>" keyword_extractor_spec "''## 1. Intro''"]
          h e
    by blast
qed

text \<open>
  The claim as it was stated fails for a rubric of one section that requires no
  keyword, on a document that has the section's header: the overall score is \<open>NaN\<close>.
\<close>

theorem overallScore_range_counterexample:
  "sections \<lparr>DocumentType.name = ''One'',
             sections = [\<lparr>Section.name = ''A'', requiredKeywords = [], minWordCount = 0\<rparr>],
             overallMinWordCount = 0\<rparr> \<noteq> [] \<and>
   overallScore
     (evaluateDocument keyword_extractor_spec ''## 1. A''
        \<lparr>DocumentType.name = ''One'',
         sections = [\<lparr>Section.name = ''A'', requiredKeywords = [], minWordCount = 0\<rparr>],
         overallMinWordCount = 0\<rparr>) = NaN"
  by code_simp

text \<open>
  Claim C1. As amended: for every rubric that has at least one section, each with at
  least one required keyword, and every document in which each section of the rubric
  is present with at least its minimum word count and all of its required keywords
  found, and whose word count is at least the overall minimum, the overall score is
  100.
\<close>

theorem complete_document_scores_100:
  assumes "sections dt \<noteq> []"
    and "list_all (\<lambda>s. requiredKeywords s \<noteq> []) (sections dt)"
    and "list_all (meets_section ke content) (sections dt)"
    and "overallMinWordCount dt \<le> int (length (words_of content))"
  shows "overallScore (evaluateDocument ke content dt) = Fin 100"
  using assms
  by (simp add: evaluateDocument_overallScore foldl_js_add js_add_zero_left
      sum_scores_complete of_length_def)

theorem complete_document_scores_100_witness:
  "list_all (meets_section keyword_extractor_spec
       ''## 1. Intro the Purpose and scope ## 2. Plan our next GOAL'')
     [\<lparr>Section.name = ''Intro'', requiredKeywords = [''purpose'', ''scope''],
       minWordCount = 7\<rparr>,
      \<lparr>Section.name = ''Plan'', requiredKeywords = [''Goal''], minWordCount = 4\<rparr>] \<and>
   overallScore
     (evaluateDocument keyword_extractor_spec
        ''## 1. Intro the Purpose and scope ## 2. Plan our next GOAL''
        \<lparr>DocumentType.name = ''Note'',
         sections =
           [\<lparr>Section.name = ''Intro'', requiredKeywords = [''purpose'', ''scope''],
             minWordCount = 7\<rparr>,
            \<lparr>Section.name = ''Plan'', requiredKeywords = [''Goal''], minWordCount = 4\<rparr>],
         overallMinWordCount = 13\<rparr>) = Fin 100"
proof -
  let ?c = "''## 1. Intro the Purpose and scope ## 2. Plan our next GOAL''"
  let ?ss = "[\<lparr>Section.name = ''Intro'', requiredKeywords = [''purpose'', ''scope''],
               minWordCount = 7\<rparr>,
              \<lparr>Section.name = ''Plan'', requiredKeywords = [''Goal''], minWordCount = 4\<rparr>]"
  let ?dt = "\<lparr>DocumentType.name = ''Note'', sections = ?ss, overallMinWordCount = 13\<rparr>"
  have h1: "sections ?dt \<noteq> []" by simp
  have h2: "list_all (\<lambda>s. requiredKeywords s \<noteq> []) (sections ?dt)" by simp
  have m: "list_all (meets_section keyword_extractor_spec ?c) ?ss" by code_simp
  then have h3: "list_all (meets_section keyword_extractor_spec ?c) (sections ?dt)" by simp
  have h4: "overallMinWordCount ?dt \<le> int (length (words_of ?c))" by code_simp
  show ?thesis
    using complete_document_scores_100 [OF h1 h2 h3 h4] m by simp
qed

text \<open>
  The claim as it was stated fails in two ways. A rubric without sections meets its
  premises on every document and scores \<open>NaN\<close>; so does a rubric whose one section
  requires no keyword, on a document that has the section with enough words.
\<close>

theorem complete_document_counterexample:
  "list_all (meets_section keyword_extractor_spec ''## 1. A'')
     (sections \<lparr>DocumentType.name = ''Empty'', sections = [], overallMinWordCount = 0\<rparr>) \<and>
   overallMinWordCount
     \<lparr>DocumentType.name = ''Empty'', sections = [], overallMinWordCount = 0\<rparr>
     \<le> int (length (words_of ''## 1. A'')) \<and>
   overallScore
     (evaluateDocument keyword_extractor_spec ''## 1. A''
        \<lparr>DocumentType.name = ''Empty'', sections = [], overallMinWordCount = 0\<rparr>) = NaN \<and>
   list_all (meets_section keyword_extractor_spec ''## 1. A'')
     (sections
        \<lparr>DocumentType.name = ''One'',
         sections = [\<lparr>Section.name = ''A'', requiredKeywords = [], minWordCount = 3\<rparr>],
         overallMinWordCount = 3\<rparr>) \<and>
   overallMinWordCount
     \<lparr>DocumentType.name = ''One'',
      sections = [\<lparr>Section.name = ''A'', requiredKeywords = [], minWordCount = 3\<rparr>],
      overallMinWordCount = 3\<rparr>
     \<le> int (length (words_of ''## 1. A'')) \<and>
   overallScore
     (evaluateDocument keyword_extractor_spec ''## 1. A''
        \<lparr>DocumentType.name = ''One'',
         sections = [\<lparr>Section.name = ''A'', requiredKeywords = [], minWordCount = 3\<rparr>],
         overallMinWordCount = 3\<rparr>) = NaN"
  by code_simp

section \<open>The score of a section\<close>






text \<open>
  Claim C5. As amended: for every section definition with at least one required
  keyword, if the section is present in the document with a text whose word count is
  exactly the section's minimum word count and every required keyword is found in it,
  then \<open>evaluateSection\<close> returns the score 1.
\<close>

theorem exact_minimum_scores_one:
  assumes "requiredKeywords s \<noteq> []"
    and "locateSection content s = Some t"
    and "int (length (words_of t)) = minWordCount s"
    and "list_all (keywordFound ke t) (requiredKeywords s)"
  shows "score (evaluateSection ke content s) = Fin 1"
  using assms by (intro meets_section_score) (simp_all add: meets_section_def)

theorem exact_minimum_scores_one_witness:
  "locateSection ''# Title ## 3. key features: Benefits unique ## 4. More''
     \<lparr>Section.name = ''Key Features'', requiredKeywords = [''benefits'', ''unique''],
      minWordCount = 6\<rparr> = Some ''## 3. key features: Benefits unique '' \<and>
   int (length (words_of ''## 3. key features: Benefits unique '')) = 6 \<and>
   list_all (keywordFound keyword_extractor_spec ''## 3. key features: Benefits unique '')
     [''benefits'', ''unique''] \<and>
   score
     (evaluateSection keyword_extractor_spec
        ''# Title ## 3. key features: Benefits unique ## 4. More''
        \<lparr>Section.name = ''Key Features'', requiredKeywords = [''benefits'', ''unique''],
         minWordCount = 6\<rparr>) = Fin 1"
proof -
  let ?s = "\<lparr>Section.name = ''Key Features'', requiredKeywords = [''benefits'', ''unique''],
             minWordCount = 6\<rparr>"
  let ?c = "''# Title ## 3. key features: Benefits unique ## 4. More''"
  let ?t = "''## 3. key features: Benefits unique ''"
  have h1: "requiredKeywords ?s \<noteq> []" by simp
  have h2: "locateSection ?c ?s = Some ?t" by code_simp
  have w: "int (length (words_of ?t)) = 6" by code_simp
  then have h3: "int (length (words_of ?t)) = minWordCount ?s" by simp
  have k: "list_all (keywordFound keyword_extractor_spec ?t) [''benefits'', ''unique'']"
    by code_simp
  then have h4: "list_all (keywordFound keyword_extractor_spec ?t) (requiredKeywords ?s)"
    by simp
  show ?thesis
    using exact_minimum_scores_one [OF h1 h2 h3 h4] h2 w k by simp
qed

text \<open>
  The claim as it was stated fails for a section that requires no keyword: present
  with exactly its minimum of three words, and with every one of its (no) required
  keywords found, it scores \<open>NaN\<close>.
\<close>

theorem exact_minimum_counterexample:
  "locateSection ''## 1. A''
     \<lparr>Section.name = ''A'', requiredKeywords = [], minWordCount = 3\<rparr> = Some ''## 1. A'' \<and>
   int (length (words_of ''## 1. A'')) = 3 \<and>
   list_all (keywordFound keyword_extractor_spec ''## 1. A'') [] \<and>
   score
     (evaluateSection keyword_extractor_spec ''## 1. A''
        \<lparr>Section.name = ''A'', requiredKeywords = [], minWordCount = 3\<rparr>) = NaN"
  by code_simp

section \<open>Characters\<close>

lemma of_char_lt: "(of_char c :: nat) < 256"
proof -
  have "(of_char c :: nat) mod 256 < 256" by (rule mod_less_divisor) simp
  then show ?thesis by simp
qed

lemma of_char_toUpperChar:
  "(of_char (toUpperChar c) :: nat) =
     (if 97 \<le> (of_char c :: nat) \<and> (of_char c :: nat) \<le> 122 then of_char c - 32 else of_char c)"
proof -
  have "(of_char c :: nat) - 32 < 256" using of_char_lt [of c] by arith
  then have "((of_char c :: nat) - 32) mod 256 = of_char c - 32" by (rule mod_less)
  then show ?thesis by (simp add: toUpperChar_def Let_def)
qed

lemma of_char_toLowerChar:
  "(of_char (toLowerChar c) :: nat) =
     (if 65 \<le> (of_char c :: nat) \<and> (of_char c :: nat) \<le> 90 then of_char c + 32 else of_char c)"
proof -
  have "(of_char c :: nat) \<le> 90 \<Longrightarrow> ((of_char c :: nat) + 32) mod 256 = of_char c + 32"
    by simp
  then show ?thesis by (simp add: toLowerChar_def Let_def)
qed

lemma upper_eq_codes:
  assumes "toUpperChar c = toUpperChar d"
  shows "(if 97 \<le> (of_char c :: nat) \<and> (of_char c :: nat) \<le> 122 then of_char c - 32 else of_char c)
       = (if 97 \<le> (of_char d :: nat) \<and> (of_char d :: nat) \<le> 122 then of_char d - 32 else (of_char d :: nat))"
proof -
  from assms have "(of_char (toUpperChar c) :: nat) = of_char (toUpperChar d)" by simp
  then show ?thesis by (simp only: of_char_toUpperChar)
qed

lemma upper_eq_isDigit: "toUpperChar c = toUpperChar d \<Longrightarrow> isDigit c = isDigit d"
  by (drule upper_eq_codes) (auto simp: isDigit_def Let_def split: if_splits)

lemma upper_eq_isSpace: "toUpperChar c = toUpperChar d \<Longrightarrow> isSpace c = isSpace d"
  by (drule upper_eq_codes) (auto simp: isSpace_def Let_def split: if_splits)

lemma upper_eq_lower: "toUpperChar c = toUpperChar d \<Longrightarrow> toLowerChar c = toLowerChar d"
proof -
  assume "toUpperChar c = toUpperChar d"
  then have e: "(if 97 \<le> (of_char c :: nat) \<and> (of_char c :: nat) \<le> 122 then of_char c - 32 else of_char c)
       = (if 97 \<le> (of_char d :: nat) \<and> (of_char d :: nat) \<le> 122 then of_char d - 32 else (of_char d :: nat))"
    by (rule upper_eq_codes)
  define n m where "n = (of_char c :: nat)" and "m = (of_char d :: nat)"
  from e have "(if 65 \<le> n \<and> n \<le> 90 then n + 32 else n) = (if 65 \<le> m \<and> m \<le> 90 then m + 32 else m)"
    unfolding n_def [symmetric] m_def [symmetric] by (auto split: if_splits)
  then have "(of_char (toLowerChar c) :: nat) = of_char (toLowerChar d)"
    by (simp only: of_char_toLowerChar n_def m_def)
  then show ?thesis by simp
qed

lemma toUpperChar_idem: "toUpperChar (toUpperChar c) = toUpperChar c"
proof -
  have "(of_char (toUpperChar (toUpperChar c)) :: nat) = of_char (toUpperChar c)"
    by (auto simp: of_char_toUpperChar)
  then show ?thesis by simp
qed

lemma isSpace_toLowerChar: "isSpace (toLowerChar c) = isSpace c"
  by (auto simp: isSpace_def Let_def of_char_toLowerChar)

lemma upper_eq_caseless:
  assumes "\<not> (65 \<le> (of_char a :: nat) \<and> (of_char a :: nat) \<le> 90)"
    and "\<not> (97 \<le> (of_char a :: nat) \<and> (of_char a :: nat) \<le> 122)"
  shows "(toUpperChar a = toUpperChar c) = (a = c)"
proof
  assume "toUpperChar a = toUpperChar c"
  then have "(of_char a :: nat) = of_char c"
    using assms by (drule_tac upper_eq_codes) (auto split: if_splits)
  then show "a = c" by simp
qed simp

lemma atom_ok_header_chars:
  "atom_ok ci (Chr CHR ''#'') c = (c = CHR ''#'')"
  "atom_ok ci (Chr CHR '' '') c = (c = CHR '' '')"
  "atom_ok ci (Chr CHR ''.'') c = (c = CHR ''.'')"
  by (auto simp: upper_eq_caseless)

section \<open>The matcher\<close>

text \<open>
  What a repetition returns: the longest run, of one character at least, behind which
  the rest of the expression matches.
\<close>

lemma candidates_Suc: "rev [1 ..< Suc (Suc n)] = Suc n # rev [1 ..< Suc n]"
  by simp

lemma first_some_candidates_None:
  "first_some (map f (rev [1 ..< Suc n])) = None \<longleftrightarrow> (\<forall>k. 1 \<le> k \<and> k \<le> n \<longrightarrow> f k = None)"
proof (induction n)
  case 0
  show ?case by simp
next
  case (Suc n)
  show ?case
  proof (cases "f (Suc n)")
    case None
    have "(\<forall>k. 1 \<le> k \<and> k \<le> Suc n \<longrightarrow> f k = None) \<longleftrightarrow> (\<forall>k. 1 \<le> k \<and> k \<le> n \<longrightarrow> f k = None)"
      using None by (auto simp: le_Suc_eq)
    with Suc None show ?thesis by (simp only: candidates_Suc list.map first_some.simps)
  next
    case (Some v)
    then have "\<not> (\<forall>k. 1 \<le> k \<and> k \<le> Suc n \<longrightarrow> f k = None)" by auto
    with Some show ?thesis by (simp only: candidates_Suc list.map first_some.simps) simp
  qed
qed

lemma first_some_candidates_Some:
  "first_some (map f (rev [1 ..< Suc n])) = Some v \<Longrightarrow>
   \<exists>k. 1 \<le> k \<and> k \<le> n \<and> f k = Some v \<and> (\<forall>j. k < j \<and> j \<le> n \<longrightarrow> f j = None)"
proof (induction n)
  case 0
  then show ?case by simp
next
  case (Suc n)
  show ?case
  proof (cases "f (Suc n)")
    case None
    with Suc.prems have "first_some (map f (rev [1 ..< Suc n])) = Some v"
      by (simp only: candidates_Suc list.map first_some.simps)
    from Suc.IH [OF this] obtain k where k: "1 \<le> k" "k \<le> n" "f k = Some v"
      "\<forall>j. k < j \<and> j \<le> n \<longrightarrow> f j = None" by blast
    have "\<forall>j. k < j \<and> j \<le> Suc n \<longrightarrow> f j = None"
      using k(4) None by (auto simp: le_Suc_eq)
    with k show ?thesis by (intro exI [of _ k]) simp
  next
    case (Some w)
    with Suc.prems have "w = v"
      by (simp only: candidates_Suc list.map first_some.simps) simp
    with Some show ?thesis by (intro exI [of _ "Suc n"]) auto
  qed
qed

lemma matchHere_One:
  "matchHere ci (One a # r) xs = Some l \<longleftrightarrow>
     (\<exists>c cs l'. xs = c # cs \<and> atom_ok ci a c \<and> matchHere ci r cs = Some l' \<and> l = Suc l')"
  by (cases xs) auto

lemma matchHere_Plus_Some:
  assumes "matchHere ci (Plus a # r) xs = Some l"
  shows "\<exists>k l'. 1 \<le> k \<and> k \<le> length (takeWhile (atom_ok ci a) xs) \<and>
           matchHere ci r (drop k xs) = Some l' \<and> l = k + l' \<and>
           (\<forall>j. k < j \<and> j \<le> length (takeWhile (atom_ok ci a) xs) \<longrightarrow>
                matchHere ci r (drop j xs) = None)"
proof -
  let ?f = "\<lambda>k. map_option (\<lambda>l. k + l) (matchHere ci r (drop k xs))"
  from assms have "first_some (map ?f (rev [1 ..< Suc (length (takeWhile (atom_ok ci a) xs))])) = Some l"
    by (simp only: matchHere.simps)
  from first_some_candidates_Some [OF this] show ?thesis by auto
qed

lemma matchHere_Plus_None:
  "matchHere ci (Plus a # r) xs = None \<longleftrightarrow>
     (\<forall>k. 1 \<le> k \<and> k \<le> length (takeWhile (atom_ok ci a) xs) \<longrightarrow>
          matchHere ci r (drop k xs) = None)"
  by (simp only: matchHere.simps first_some_candidates_None option.map_disc_iff)

lemma take_takeWhile_all:
  "k \<le> length (takeWhile P xs) \<Longrightarrow> list_all P (take k xs)"
proof -
  assume k: "k \<le> length (takeWhile P xs)"
  have "take k xs = take k (takeWhile P xs @ dropWhile P xs)" by simp
  also have "\<dots> = take k (takeWhile P xs)" using k by (simp del: takeWhile_dropWhile_id)
  finally have "set (take k xs) \<subseteq> set (takeWhile P xs)" by (simp add: set_take_subset)
  then show ?thesis by (auto simp: list_all_iff dest: set_takeWhileD)
qed

lemma length_takeWhile_append_all:
  "list_all P ws \<Longrightarrow> length ws \<le> length (takeWhile P (ws @ ys))"
  by (induction ws) simp_all

lemma matchHere_literal:
  "matchHere ci (map (\<lambda>c. One (Chr c)) title) xs =
     (if length title \<le> length xs \<and>
         list_all2 (\<lambda>a c. atom_ok ci (Chr a) c) title (take (length title) xs)
      then Some (length title) else None)"
proof (induction title arbitrary: xs)
  case Nil
  show ?case by simp
next
  case (Cons a title)
  show ?case
  proof (cases xs)
    case Nil
    then show ?thesis by simp
  next
    case (Cons c cs)
    then show ?thesis using Cons.IH [of cs] by simp
  qed
qed

text \<open>
  The expression of a section matches at the start of a text exactly when the text
  starts with a header, and the match is at least as long as every header there.
\<close>

lemma sectionRegex_unfold:
  "sectionRegex title =
     One (Chr CHR ''#'') # One (Chr CHR ''#'') # One (Chr CHR '' '') # Plus Digit #
     One (Chr CHR ''.'') # Plus Space # map (\<lambda>c. One (Chr c)) title"
  by (simp add: sectionRegex_def headerRegex_def)

lemma atom_ok_classes: "atom_ok ci Digit = isDigit" "atom_ok ci Space = isSpace"
  by (rule ext, simp)+

lemma matchHere_OneD:
  "matchHere ci (One a # r) xs = Some l \<Longrightarrow>
     \<exists>c cs l'. xs = c # cs \<and> atom_ok ci a c \<and> matchHere ci r cs = Some l' \<and> l = Suc l'"
  by (cases xs) (auto split: if_splits)

lemma header_sound:
  assumes "matchHere ci (sectionRegex title) xs = Some l"
  shows "\<exists>ds ws nm rest. xs = ''## '' @ ds @ ''.'' @ ws @ nm @ rest \<and>
           l = length (''## '' @ ds @ ''.'' @ ws @ nm) \<and>
           ds \<noteq> [] \<and> list_all isDigit ds \<and> ws \<noteq> [] \<and> list_all isSpace ws \<and>
           list_all2 (\<lambda>a c. atom_ok ci (Chr a) c) title nm"
proof -
  let ?lits = "map (\<lambda>c. One (Chr c)) title"
  from assms have m0: "matchHere ci (One (Chr CHR ''#'') # One (Chr CHR ''#'') #
       One (Chr CHR '' '') # Plus Digit # One (Chr CHR ''.'') # Plus Space # ?lits) xs = Some l"
    by (simp only: sectionRegex_unfold)
  from matchHere_OneD [OF m0] obtain c1 r1 l1 where 1: "xs = c1 # r1" "c1 = CHR ''#''" "l = Suc l1"
    and m1: "matchHere ci (One (Chr CHR ''#'') # One (Chr CHR '' '') # Plus Digit #
       One (Chr CHR ''.'') # Plus Space # ?lits) r1 = Some l1"
    by (auto simp only: atom_ok_header_chars)
  from matchHere_OneD [OF m1] obtain c2 r2 l2 where 2: "r1 = c2 # r2" "c2 = CHR ''#''" "l1 = Suc l2"
    and m2: "matchHere ci (One (Chr CHR '' '') # Plus Digit #
       One (Chr CHR ''.'') # Plus Space # ?lits) r2 = Some l2"
    by (auto simp only: atom_ok_header_chars)
  from matchHere_OneD [OF m2] obtain c3 r3 l3 where 3: "r2 = c3 # r3" "c3 = CHR '' ''" "l2 = Suc l3"
    and m3: "matchHere ci (Plus Digit # One (Chr CHR ''.'') # Plus Space # ?lits) r3 = Some l3"
    by (auto simp only: atom_ok_header_chars)
  from matchHere_Plus_Some [OF m3] obtain k l4 where k: "1 \<le> k"
    "k \<le> length (takeWhile (atom_ok ci Digit) r3)" "l3 = k + l4"
    and m4: "matchHere ci (One (Chr CHR ''.'') # Plus Space # ?lits) (drop k r3) = Some l4"
    by blast
  from matchHere_OneD [OF m4] obtain c5 r5 l5 where 5: "drop k r3 = c5 # r5" "c5 = CHR ''.''" "l4 = Suc l5"
    and m5: "matchHere ci (Plus Space # ?lits) r5 = Some l5"
    by (auto simp only: atom_ok_header_chars)
  from matchHere_Plus_Some [OF m5] obtain j l6 where j: "1 \<le> j"
    "j \<le> length (takeWhile (atom_ok ci Space) r5)" "l5 = j + l6"
    and m6: "matchHere ci ?lits (drop j r5) = Some l6"
    by blast
  from m6 have 6: "l6 = length title" "length title \<le> length (drop j r5)"
    "list_all2 (\<lambda>a c. atom_ok ci (Chr a) c) title (take (length title) (drop j r5))"
    by (simp_all add: matchHere_literal del: atom_ok.simps split: if_splits)
  define ds ws nm rest where "ds = take k r3" and "ws = take j r5"
    and "nm = take (length title) (drop j r5)" and "rest = drop (length title) (drop j r5)"
  have d: "list_all isDigit ds"
    using take_takeWhile_all [OF k(2)] by (simp add: ds_def atom_ok_classes)
  have w: "list_all isSpace ws"
    using take_takeWhile_all [OF j(2)] by (simp add: ws_def atom_ok_classes)
  have kl: "k \<le> length r3"
    using k(2) length_takeWhile_le [of "atom_ok ci Digit" r3] by simp
  have jl: "j \<le> length r5"
    using j(2) length_takeWhile_le [of "atom_ok ci Space" r5] by simp
  have dl: "length ds = k" using kl by (simp add: ds_def)
  have wl: "length ws = j" using jl by (simp add: ws_def)
  have nl: "length nm = length title" using 6(2) by (simp add: nm_def)
  have r3: "r3 = ds @ ''.'' @ r5"
    using append_take_drop_id [of k r3] 5 by (simp add: ds_def)
  have r5: "r5 = ws @ nm @ rest"
    using append_take_drop_id [of j r5]
      append_take_drop_id [of "length title" "drop j r5"]
    by (simp add: ws_def nm_def rest_def)
  have x: "xs = ''## '' @ ds @ ''.'' @ ws @ nm @ rest"
    using 1 2 3 r3 r5 by simp
  have l: "l = length (''## '' @ ds @ ''.'' @ ws @ nm)"
    using 1(3) 2(3) 3(3) k(3) 5(3) j(3) 6(1) dl wl nl by simp
  have "ds \<noteq> []" using dl k(1) by auto
  moreover have "ws \<noteq> []" using wl j(1) by auto
  ultimately show ?thesis
    using x l d w 6(3) unfolding nm_def [symmetric] by blast
qed

lemma header_complete:
  assumes x: "xs = ''## '' @ ds @ ''.'' @ ws @ nm @ rest"
    and ds: "ds \<noteq> []" "list_all isDigit ds"
    and ws: "ws \<noteq> []" "list_all isSpace ws"
    and nm: "list_all2 (\<lambda>a c. atom_ok ci (Chr a) c) title nm"
  shows "\<exists>l. matchHere ci (sectionRegex title) xs = Some l \<and>
             length (''## '' @ ds @ ''.'' @ ws @ nm) \<le> l"
proof -
  let ?lits = "map (\<lambda>c. One (Chr c)) title"
  let ?r5 = "ws @ nm @ rest"
  let ?r3 = "ds @ ''.'' @ ?r5"
  have nl: "length nm = length title" using nm by (simp add: list_all2_lengthD)
  \<comment> \<open>the white space and the name\<close>
  have at: "matchHere ci ?lits (drop (length ws) ?r5) = Some (length title)"
    using nm nl by (simp add: matchHere_literal del: atom_ok.simps)
  have wk: "1 \<le> length ws" using ws(1) by (cases ws) simp_all
  have wn: "length ws \<le> length (takeWhile (atom_ok ci Space) ?r5)"
    using length_takeWhile_append_all [of isSpace ws "nm @ rest"] ws(2)
    by (simp add: atom_ok_classes)
  have "matchHere ci (Plus Space # ?lits) ?r5 \<noteq> None"
    using at wk wn unfolding matchHere_Plus_None by (intro notI) auto
  then obtain l5 where m5: "matchHere ci (Plus Space # ?lits) ?r5 = Some l5" by blast
  from matchHere_Plus_Some [OF m5] obtain j l6 where j: "1 \<le> j"
    "j \<le> length (takeWhile (atom_ok ci Space) ?r5)" "l5 = j + l6"
    and m6: "matchHere ci ?lits (drop j ?r5) = Some l6"
    and mx: "\<forall>i. j < i \<and> i \<le> length (takeWhile (atom_ok ci Space) ?r5) \<longrightarrow>
                matchHere ci ?lits (drop i ?r5) = None"
    by blast
  have "\<not> j < length ws" using mx wn at by auto
  moreover from m6 have "l6 = length title"
    by (simp add: matchHere_literal del: atom_ok.simps split: if_splits)
  ultimately have l5: "length ws + length nm \<le> l5" using j(3) nl by simp
  \<comment> \<open>the full stop\<close>
  have m4: "matchHere ci (One (Chr CHR ''.'') # Plus Space # ?lits) (''.'' @ ?r5) = Some (Suc l5)"
    using m5 by (simp add: atom_ok_header_chars del: atom_ok.simps)
  \<comment> \<open>the digits\<close>
  have dk: "1 \<le> length ds" using ds(1) by (cases ds) simp_all
  have dn: "length ds \<le> length (takeWhile (atom_ok ci Digit) ?r3)"
    using length_takeWhile_append_all [of isDigit ds "''.'' @ ?r5"] ds(2)
    by (simp add: atom_ok_classes)
  have "matchHere ci (Plus Digit # One (Chr CHR ''.'') # Plus Space # ?lits) ?r3 \<noteq> None"
    using m4 dk dn unfolding matchHere_Plus_None by (intro notI) auto
  then obtain l3 where m3:
    "matchHere ci (Plus Digit # One (Chr CHR ''.'') # Plus Space # ?lits) ?r3 = Some l3"
    by blast
  from matchHere_Plus_Some [OF m3] obtain k l4 where k: "1 \<le> k"
    "k \<le> length (takeWhile (atom_ok ci Digit) ?r3)" "l3 = k + l4"
    and m4': "matchHere ci (One (Chr CHR ''.'') # Plus Space # ?lits) (drop k ?r3) = Some l4"
    by blast
  have tw: "takeWhile (atom_ok ci Digit) ?r3 = ds"
    using ds(2) by (simp add: atom_ok_classes list_all_iff isDigit_def)
  have kd: "k = length ds"
  proof (rule ccontr)
    assume "k \<noteq> length ds"
    with k(2) tw have lt: "k < length ds" by simp
    then have "drop k ?r3 = (ds ! k) # drop (Suc k) ds @ ''.'' @ ?r5"
      by (simp add: Cons_nth_drop_Suc)
    moreover have "isDigit (ds ! k)" using ds(2) lt by (simp add: list_all_length)
    then have "ds ! k \<noteq> CHR ''.''" by (auto simp: isDigit_def)
    ultimately show False using m4' by (simp add: atom_ok_header_chars del: atom_ok.simps)
  qed
  with m4' m4 have "l4 = Suc l5" by simp
  with k(3) kd have l3: "l3 = length ds + Suc l5" by simp
  have "matchHere ci (sectionRegex title) xs = Some (3 + l3)"
    unfolding sectionRegex_unfold x using m3
    by (simp add: atom_ok_header_chars del: atom_ok.simps matchHere.simps(4))
  with l3 l5 show ?thesis by simp
qed

text \<open>The search returns the leftmost start that has a match.\<close>

lemma regex_match_None:
  "regex_match ci re xs = None \<longleftrightarrow> (\<forall>i\<le>length xs. matchHere ci re (drop i xs) = None)"
proof (induction xs)
  case Nil
  show ?case by simp
next
  case (Cons c cs)
  have "(\<forall>i\<le>length (c # cs). matchHere ci re (drop i (c # cs)) = None) \<longleftrightarrow>
        matchHere ci re (c # cs) = None \<and> (\<forall>i\<le>length cs. matchHere ci re (drop i cs) = None)"
    (is "?L \<longleftrightarrow> ?R")
  proof
    assume l: ?L
    have "matchHere ci re (drop 0 (c # cs)) = None" using l by blast
    moreover have "\<forall>i\<le>length cs. matchHere ci re (drop (Suc i) (c # cs)) = None"
      using l by auto
    ultimately show ?R by simp
  next
    assume r: ?R
    show ?L
    proof (intro allI impI)
      fix i assume "i \<le> length (c # cs)"
      with r show "matchHere ci re (drop i (c # cs)) = None" by (cases i) auto
    qed
  qed
  with Cons.IH show ?case by (simp split: option.splits)
qed

lemma regex_match_Some:
  "regex_match ci re xs = Some (i, l) \<Longrightarrow>
     i \<le> length xs \<and> matchHere ci re (drop i xs) = Some l \<and>
     (\<forall>j<i. matchHere ci re (drop j xs) = None)"
proof (induction xs arbitrary: i)
  case Nil
  then show ?case by auto
next
  case (Cons c cs)
  show ?case
  proof (cases "matchHere ci re (c # cs)")
    case (Some l')
    with Cons.prems show ?thesis by simp
  next
    case None
    with Cons.prems obtain i' where i': "regex_match ci re cs = Some (i', l)" "i = Suc i'"
      by auto
    from Cons.IH [OF i'(1)] have ih: "i' \<le> length cs" "matchHere ci re (drop i' cs) = Some l"
      "\<forall>j<i'. matchHere ci re (drop j cs) = None" by simp_all
    have "\<forall>j<i. matchHere ci re (drop j (c # cs)) = None"
    proof (intro allI impI)
      fix j assume "j < i"
      with ih(3) i'(2) None show "matchHere ci re (drop j (c # cs)) = None" by (cases j) auto
    qed
    with ih i'(2) show ?thesis by simp
  qed
qed

lemma same_letters_list_all2:
  "same_letters nm title \<longleftrightarrow> list_all2 (\<lambda>a c. atom_ok True (Chr a) c) title nm"
proof (induction title arbitrary: nm)
  case Nil
  show ?case by (simp add: same_letters_def)
next
  case (Cons a title)
  show ?case using Cons.IH by (cases nm) (auto simp: same_letters_def)
qed

lemma take_eq_append: "take (length h) xs = h \<Longrightarrow> xs = h @ drop (length h) xs"
  using append_take_drop_id [of "length h" xs] by simp

lemma header_at_match:
  assumes "header_at title content i h"
  shows "\<exists>l. matchHere True (sectionRegex title) (drop i content) = Some l \<and> length h \<le> l"
proof -
  from assms obtain ds ws nm where h: "h = ''## '' @ ds @ ''.'' @ ws @ nm"
    and p: "ds \<noteq> []" "list_all isDigit ds" "ws \<noteq> []" "list_all isSpace ws"
    and n: "same_letters nm title"
    and t: "take (length h) (drop i content) = h"
    unfolding header_at_def is_header_def by blast
  from take_eq_append [OF t]
  have x: "drop i content = ''## '' @ ds @ ''.'' @ ws @ nm @ drop (length h) (drop i content)"
    unfolding h by simp
  from n have n': "list_all2 (\<lambda>a c. atom_ok True (Chr a) c) title nm"
    by (simp only: same_letters_list_all2)
  from header_complete [OF x p n'] show ?thesis unfolding h .
qed

lemma match_header_at:
  assumes "matchHere True (sectionRegex title) (drop i content) = Some l"
  shows "header_at title content i (take l (drop i content)) \<and> l \<le> length (drop i content)"
proof -
  from header_sound [OF assms] obtain ds ws nm rest
    where x: "drop i content = ''## '' @ ds @ ''.'' @ ws @ nm @ rest"
      and l: "l = length (''## '' @ ds @ ''.'' @ ws @ nm)"
      and p: "ds \<noteq> []" "list_all isDigit ds" "ws \<noteq> []" "list_all isSpace ws"
      and n: "list_all2 (\<lambda>a c. atom_ok True (Chr a) c) title nm"
    by blast
  have t: "take l (drop i content) = ''## '' @ ds @ ''.'' @ ws @ nm"
    unfolding x l by simp
  have "is_header title (''## '' @ ds @ ''.'' @ ws @ nm)"
    unfolding is_header_def using p n by (auto simp only: same_letters_list_all2)
  then have h: "is_header title (take l (drop i content))" by (simp only: t)
  have le: "l \<le> length (drop i content)" unfolding x l by simp
  then have "take (length (take l (drop i content))) (drop i content) = take l (drop i content)"
    by (simp add: min_absorb2)
  with h le show ?thesis unfolding header_at_def by simp
qed

lemma next_header_at_match:
  assumes "header_at [] content p g"
  shows "matchHere False headerRegex (drop p content) \<noteq> None"
proof -
  from assms obtain ds ws nm where g: "g = ''## '' @ ds @ ''.'' @ ws @ nm"
    and q: "ds \<noteq> []" "list_all isDigit ds" "ws \<noteq> []" "list_all isSpace ws"
    and n: "same_letters nm []"
    and t: "take (length g) (drop p content) = g"
    unfolding header_at_def is_header_def by blast
  from take_eq_append [OF t]
  have x: "drop p content = ''## '' @ ds @ ''.'' @ ws @ [] @ drop (length g) (drop p content)"
    using n unfolding g by (simp add: same_letters_def)
  have "list_all2 (\<lambda>a c. atom_ok False (Chr a) c) [] []" by simp
  from header_complete [OF x q this] show ?thesis by (auto simp: sectionRegex_def)
qed

lemma match_next_header_at:
  assumes "matchHere False headerRegex (drop p content) = Some l"
  shows "header_at [] content p (take l (drop p content)) \<and> 0 < l \<and> l \<le> length (drop p content)"
proof -
  from assms have "matchHere False (sectionRegex []) (drop p content) = Some l"
    by (simp add: sectionRegex_def)
  from header_sound [OF this] obtain ds ws nm rest
    where x: "drop p content = ''## '' @ ds @ ''.'' @ ws @ nm @ rest"
      and l: "l = length (''## '' @ ds @ ''.'' @ ws @ nm)"
      and q: "ds \<noteq> []" "list_all isDigit ds" "ws \<noteq> []" "list_all isSpace ws"
      and n: "list_all2 (\<lambda>a c. atom_ok False (Chr a) c) [] nm"
    by blast
  from n have nm: "nm = []" by simp
  have t: "take l (drop p content) = ''## '' @ ds @ ''.'' @ ws @ nm"
    unfolding x l by simp
  have "is_header [] (''## '' @ ds @ ''.'' @ ws @ nm)"
    unfolding is_header_def using q nm by (auto simp: same_letters_def)
  then have h: "is_header [] (take l (drop p content))" by (simp only: t)
  have le: "l \<le> length (drop p content)" unfolding x l by simp
  then have "take (length (take l (drop p content))) (drop p content) = take l (drop p content)"
    by (simp add: min_absorb2)
  moreover have "0 < l" unfolding l by simp
  ultimately show ?thesis using h le unfolding header_at_def by simp
qed

lemma header_at_inside:
  assumes "header_at title content i h"
  shows "i < length content"
proof (rule ccontr)
  assume "\<not> i < length content"
  then have "drop i content = []" by simp
  with assms have "h = []" by (simp add: header_at_def)
  with assms show False by (simp add: header_at_def is_header_def)
qed

section \<open>Locating a section\<close>

lemma no_header_regex_match:
  "no_header title content \<longleftrightarrow> regex_match True (sectionRegex title) content = None"
proof
  assume n: "no_header title content"
  show "regex_match True (sectionRegex title) content = None"
  proof (rule ccontr)
    assume "regex_match True (sectionRegex title) content \<noteq> None"
    then obtain i l where "regex_match True (sectionRegex title) content = Some (i, l)" by auto
    from regex_match_Some [OF this]
    have "matchHere True (sectionRegex title) (drop i content) = Some l" by simp
    from match_header_at [OF this] n show False by (auto simp: no_header_def)
  qed
next
  assume r: "regex_match True (sectionRegex title) content = None"
  show "no_header title content"
    unfolding no_header_def
  proof (intro allI notI)
    fix i h assume h: "header_at title content i h"
    from header_at_inside [OF h] have "i \<le> length content" by simp
    with r have "matchHere True (sectionRegex title) (drop i content) = None"
      by (simp add: regex_match_None)
    with header_at_match [OF h] show False by auto
  qed
qed

lemma locateSection_None:
  "no_header (Section.name s) content \<Longrightarrow> locateSection content s = None"
  by (simp add: no_header_regex_match locateSection_def)

lemma first_header_regex_match:
  assumes f: "first_header_at title content i"
    and h: "longest_header_at title content i h"
  shows "regex_match True (sectionRegex title) content = Some (i, length h)"
proof -
  let ?re = "sectionRegex title"
  from h have hh: "header_at title content i h"
    and longest: "\<And>h'. header_at title content i h' \<Longrightarrow> length h' \<le> length h"
    by (simp_all add: longest_header_at_def)
  from f have first: "\<And>j h'. j < i \<Longrightarrow> \<not> header_at title content j h'"
    by (simp add: first_header_at_def)
  from header_at_match [OF hh] obtain l0 where l0:
    "matchHere True ?re (drop i content) = Some l0" "length h \<le> l0" by blast
  from header_at_inside [OF hh] have il: "i \<le> length content" by simp
  have "regex_match True ?re content \<noteq> None"
    using l0(1) il by (auto simp: regex_match_None)
  then obtain i' l where r: "regex_match True ?re content = Some (i', l)" by auto
  from regex_match_Some [OF r] have m: "matchHere True ?re (drop i' content) = Some l"
    and before: "\<And>j. j < i' \<Longrightarrow> matchHere True ?re (drop j content) = None"
    by simp_all
  have "\<not> i < i'" using before [of i] l0(1) by auto
  moreover have "\<not> i' < i" using match_header_at [OF m] first [of i'] by auto
  ultimately have i: "i' = i" by simp
  with m l0 have l: "l = l0" by simp
  from match_header_at [OF m] i have "header_at title content i (take l (drop i content))"
    and "l \<le> length (drop i content)" by simp_all
  with longest [of "take l (drop i content)"] have "l \<le> length h" by (simp add: min_absorb2)
  with l l0(2) i r show ?thesis by simp
qed

lemma drop_shift: "drop (a + k) content = drop k (drop a content)"
  by (simp add: add.commute)

lemma section_end_regex_match:
  assumes e: "section_end content a e" and a: "a \<le> length content"
  shows "e - a = (case regex_match False headerRegex (drop a content) of
                    Some (j, l2) \<Rightarrow> j | None \<Rightarrow> length content - a)"
proof -
  from e have ae: "a \<le> e" and el: "e \<le> length content"
    and none: "\<And>p g. a \<le> p \<Longrightarrow> p < e \<Longrightarrow> \<not> header_at [] content p g"
    and last: "e = length content \<or> (\<exists>g. header_at [] content e g)"
    by (auto simp: section_end_def)
  show ?thesis
  proof (cases "regex_match False headerRegex (drop a content)")
    case None
    have "e = length content"
    proof (rule ccontr)
      assume "e \<noteq> length content"
      with last obtain g where g: "header_at [] content e g" by blast
      from header_at_inside [OF g] ae have "e - a \<le> length (drop a content)" by simp
      with None have "matchHere False headerRegex (drop (e - a) (drop a content)) = None"
        by (simp add: regex_match_None)
      moreover have "drop (e - a) (drop a content) = drop e content"
        using ae drop_shift [of a "e - a" content] by simp
      ultimately show False using next_header_at_match [OF g] by simp
    qed
    with None show ?thesis by simp
  next
    case (Some r)
    obtain j l2 where r: "r = (j, l2)" by (cases r)
    from regex_match_Some [OF Some [unfolded r]]
    have m: "matchHere False headerRegex (drop j (drop a content)) = Some l2"
      and before: "\<And>k. k < j \<Longrightarrow> matchHere False headerRegex (drop k (drop a content)) = None"
      by simp_all
    from m have m': "matchHere False headerRegex (drop (a + j) content) = Some l2"
      by (simp only: drop_shift)
    from match_next_header_at [OF m']
    have g: "header_at [] content (a + j) (take l2 (drop (a + j) content))" by simp
    from header_at_inside [OF g] have inside: "a + j < length content" .
    have "\<not> a + j < e" using none [of "a + j"] g by auto
    moreover have "\<not> e < a + j"
    proof
      assume lt: "e < a + j"
      with inside last obtain g' where g': "header_at [] content e g'" by auto
      from lt ae have "e - a < j" by simp
      from before [OF this] have "matchHere False headerRegex (drop e content) = None"
        using ae drop_shift [of a "e - a" content] by simp
      with next_header_at_match [OF g'] show False by simp
    qed
    ultimately have "e = a + j" by simp
    with Some r show ?thesis by simp
  qed
qed

lemma locateSection_first_header:
  assumes f: "first_header_at (Section.name s) content i"
    and h: "longest_header_at (Section.name s) content i h"
    and e: "section_end content (i + length h) e"
  shows "locateSection content s = Some (take (e - i) (drop i content))"
proof -
  let ?a = "i + length h"
  from h have hh: "header_at (Section.name s) content i h"
    by (simp add: longest_header_at_def)
  then have "take (length h) (drop i content) = h" by (simp add: header_at_def)
  then have "length (take (length h) (drop i content)) = length h" by simp
  then have "length h \<le> length (drop i content)" by (simp del: length_drop)
  with header_at_inside [OF hh] have a: "?a \<le> length content" by simp
  from e have ae: "?a \<le> e" by (simp add: section_end_def)
  have d: "drop (length h) (drop i content) = drop ?a content"
    by (simp add: add.commute)
  note r = first_header_regex_match [OF f h]
  note n = section_end_regex_match [OF e a]
  show ?thesis
  proof (cases "regex_match False headerRegex (drop ?a content)")
    case None
    with n have "e - ?a = length content - ?a" by simp
    with ae a have "e - i = length content - i" by simp
    with r None d show ?thesis by (simp add: locateSection_def)
  next
    case (Some p)
    obtain j l2 where p: "p = (j, l2)" by (cases p)
    with n Some have "e - ?a = j" by simp
    with ae have "e - i = j + length h" by simp
    with r Some p d show ?thesis by (simp add: locateSection_def)
  qed
qed

lemma regex_match_first_header:
  assumes r: "regex_match True (sectionRegex title) content = Some (i, l)"
  shows "first_header_at title content i \<and>
         longest_header_at title content i (take l (drop i content))"
proof -
  let ?re = "sectionRegex title"
  from regex_match_Some [OF r] have m: "matchHere True ?re (drop i content) = Some l"
    and before: "\<And>j. j < i \<Longrightarrow> matchHere True ?re (drop j content) = None"
    by simp_all
  from match_header_at [OF m] have h: "header_at title content i (take l (drop i content))"
    and le: "l \<le> length (drop i content)" by simp_all
  have first: "\<forall>j<i. \<forall>h'. \<not> header_at title content j h'"
  proof (intro allI impI notI)
    fix j h' assume "j < i" and "header_at title content j h'"
    with before [of j] header_at_match [of title content j h'] show False by auto
  qed
  have longest: "\<forall>h'. header_at title content i h' \<longrightarrow>
                   length h' \<le> length (take l (drop i content))"
  proof (intro allI impI)
    fix h' assume "header_at title content i h'"
    from header_at_match [OF this] m have "length h' \<le> l" by auto
    with le show "length h' \<le> length (take l (drop i content))" by (simp add: min_absorb2)
  qed
  from h first longest show ?thesis
    unfolding first_header_at_def longest_header_at_def by blast
qed

lemma regex_match_section_end:
  assumes a: "a \<le> length content"
  shows "section_end content a
           (case regex_match False headerRegex (drop a content) of
              Some (j, l2) \<Rightarrow> a + j | None \<Rightarrow> length content)"
proof (cases "regex_match False headerRegex (drop a content)")
  case None
  have "\<forall>p. a \<le> p \<and> p < length content \<longrightarrow> (\<forall>g. \<not> header_at [] content p g)"
  proof (intro allI impI notI)
    fix p g assume p: "a \<le> p \<and> p < length content" and g: "header_at [] content p g"
    from p have "p - a \<le> length (drop a content)" by auto
    with None have "matchHere False headerRegex (drop (p - a) (drop a content)) = None"
      by (simp add: regex_match_None)
    moreover have "drop (p - a) (drop a content) = drop p content"
      using p drop_shift [of a "p - a" content] by simp
    ultimately show False using next_header_at_match [OF g] by simp
  qed
  with None a show ?thesis by (simp add: section_end_def)
next
  case (Some r)
  obtain j l2 where r: "r = (j, l2)" by (cases r)
  from regex_match_Some [OF Some [unfolded r]]
  have jl: "j \<le> length (drop a content)"
    and m: "matchHere False headerRegex (drop j (drop a content)) = Some l2"
    and before: "\<And>k. k < j \<Longrightarrow> matchHere False headerRegex (drop k (drop a content)) = None"
    by simp_all
  from m have m': "matchHere False headerRegex (drop (a + j) content) = Some l2"
    by (simp only: drop_shift)
  from match_next_header_at [OF m']
  have g: "header_at [] content (a + j) (take l2 (drop (a + j) content))" by simp
  have "\<forall>p. a \<le> p \<and> p < a + j \<longrightarrow> (\<forall>g. \<not> header_at [] content p g)"
  proof (intro allI impI notI)
    fix p g' assume p: "a \<le> p \<and> p < a + j" and g': "header_at [] content p g'"
    from p have "p - a < j" by auto
    from before [OF this] have "matchHere False headerRegex (drop p content) = None"
      using p drop_shift [of a "p - a" content] by simp
    with next_header_at_match [OF g'] show False by simp
  qed
  moreover have "a + j \<le> length content" using jl a by simp
  ultimately show ?thesis using Some r g by (auto simp: section_end_def)
qed

text \<open>
  Claim C6. For every document and every section definition whose name is plain text,
  if no header in the document matches the section's header pattern, then
  \<open>evaluateSection\<close> returns the score 0 and, as its missing keywords, the full list of
  the section's required keywords.
\<close>

theorem absent_section_scores_zero:
  assumes "plain_name (Section.name s)" and "no_header (Section.name s) content"
  shows "score (evaluateSection ke content s) = Fin 0 \<and>
         SectionResult.missingKeywords (evaluateSection ke content s) = requiredKeywords s"
  using locateSection_None [OF assms(2)] by (simp add: evaluateSection_def)

theorem absent_section_scores_zero_witness:
  "plain_name ''Introduction'' \<and>
   no_header ''Introduction'' ''# Plan ## Introduction purpose and scope'' \<and>
   score (evaluateSection keyword_extractor_spec ''# Plan ## Introduction purpose and scope''
     \<lparr>Section.name = ''Introduction'', requiredKeywords = [''purpose'', ''scope'', ''objectives''],
      minWordCount = 100\<rparr>) = Fin 0 \<and>
   SectionResult.missingKeywords (evaluateSection keyword_extractor_spec ''# Plan ## Introduction purpose and scope''
     \<lparr>Section.name = ''Introduction'', requiredKeywords = [''purpose'', ''scope'', ''objectives''],
      minWordCount = 100\<rparr>) = [''purpose'', ''scope'', ''objectives'']"
proof -
  let ?c = "''# Plan ## Introduction purpose and scope''"
  let ?s = "\<lparr>Section.name = ''Introduction'', requiredKeywords = [''purpose'', ''scope'', ''objectives''],
      minWordCount = 100\<rparr>"
  have p: "plain_name (Section.name ?s)" by code_simp
  have "regex_match True (sectionRegex ''Introduction'') ?c = None" by code_simp
  then have n: "no_header (Section.name ?s) ?c" by (simp add: no_header_regex_match)
  show ?thesis using absent_section_scores_zero [OF p n, of keyword_extractor_spec] p n by simp
qed

text \<open>
  Claim C4. For every document in which a header "## <number>. <Section Name>" stands, in
  any letter case, \<open>evaluateSection\<close> scores exactly the part of the document from that
  header up to the next header "## <number>. " behind it, or up to the end of the
  document when no header follows. The header is the first one of the section in the
  document, at index \<open>i\<close>, and \<open>h\<close> is its text; the part scored runs from \<open>i\<close> to \<open>e\<close>.
  The name of the section is plain text.
\<close>

theorem section_text_between_headers:
  assumes "plain_name (Section.name s)"
    and "first_header_at (Section.name s) content i"
    and "longest_header_at (Section.name s) content i h"
    and "section_end content (i + length h) e"
  shows "evaluateSection ke content s = scoreSectionText ke (take (e - i) (drop i content)) s"
  using locateSection_first_header [OF assms(2,3,4)] by (simp add: evaluateSection_def)

theorem section_text_between_headers_witness:
  "first_header_at ''Intro'' ''Top ## 1. intro some text ## 2. Next'' 4 \<and>
   longest_header_at ''Intro'' ''Top ## 1. intro some text ## 2. Next'' 4 ''## 1. intro'' \<and>
   section_end ''Top ## 1. intro some text ## 2. Next'' 15 26 \<and>
   evaluateSection keyword_extractor_spec ''Top ## 1. intro some text ## 2. Next''
     \<lparr>Section.name = ''Intro'', requiredKeywords = [''text''], minWordCount = 5\<rparr> =
   scoreSectionText keyword_extractor_spec ''## 1. intro some text ''
     \<lparr>Section.name = ''Intro'', requiredKeywords = [''text''], minWordCount = 5\<rparr>"
proof -
  let ?c = "''Top ## 1. intro some text ## 2. Next''"
  let ?s = "\<lparr>Section.name = ''Intro'', requiredKeywords = [''text''], minWordCount = 5\<rparr>"
  have p: "plain_name (Section.name ?s)" by code_simp
  have "regex_match True (sectionRegex ''Intro'') ?c = Some (4, 11)" by code_simp
  from regex_match_first_header [OF this]
  have f: "first_header_at (Section.name ?s) ?c 4"
    and h: "longest_header_at (Section.name ?s) ?c 4 ''## 1. intro''" by simp_all
  have n: "regex_match False headerRegex (drop 15 ?c) = Some (11, 6)" by code_simp
  have "15 \<le> length ?c" by simp
  from regex_match_section_end [OF this] n
  have "section_end ?c 15 26" by simp
  then have e: "section_end ?c (4 + length ''## 1. intro'') 26" by simp
  show ?thesis using section_text_between_headers [OF p f h e, of keyword_extractor_spec] f h e by simp
qed

section \<open>Letter case\<close>

text \<open>
  Two texts that differ in letter case only are matched alike, split into as many
  words, and so scored alike by every extractor that does not tell them apart.
\<close>

lemma length_takeWhile_rel:
  assumes "list_all2 R xs ys" and "\<And>x y. R x y \<Longrightarrow> P x = Q y"
  shows "length (takeWhile P xs) = length (takeWhile Q ys)"
  using assms(1)
proof (induction rule: list_all2_induct)
  case Nil
  show ?case by simp
next
  case (Cons x xs y ys)
  with assms(2) [of x y] show ?case by simp
qed

lemma matchHere_rel:
  assumes "list_all2 R xs ys"
    and "\<And>it c d. it \<in> set re \<Longrightarrow> R c d \<Longrightarrow>
           atom_ok ci (case it of One a \<Rightarrow> a | Plus a \<Rightarrow> a) c =
           atom_ok ci (case it of One a \<Rightarrow> a | Plus a \<Rightarrow> a) d"
  shows "matchHere ci re xs = matchHere ci re ys"
  using assms
proof (induction re arbitrary: xs ys)
  case Nil
  show ?case by simp
next
  case (Cons it re)
  have rest: "\<And>xs' ys'. list_all2 R xs' ys' \<Longrightarrow> matchHere ci re xs' = matchHere ci re ys'"
    using Cons.IH Cons.prems(2) by simp
  show ?case
  proof (cases it)
    case (One a)
    have ok: "\<And>c d. R c d \<Longrightarrow> atom_ok ci a c = atom_ok ci a d"
      using Cons.prems(2) [of it] One by simp
    show ?thesis
    proof (cases xs)
      case Nil
      with Cons.prems(1) One show ?thesis by simp
    next
      case xs: (Cons c cs)
      with Cons.prems(1) obtain d ds where ys: "ys = d # ds" and r: "R c d" "list_all2 R cs ds"
        by (auto simp: list_all2_Cons1)
      with One xs ok [of c d] rest [of cs ds] show ?thesis by simp
    qed
  next
    case (Plus a)
    have ok: "\<And>c d. R c d \<Longrightarrow> atom_ok ci a c = atom_ok ci a d"
      using Cons.prems(2) [of it] Plus by simp
    have n: "length (takeWhile (atom_ok ci a) xs) = length (takeWhile (atom_ok ci a) ys)"
      using Cons.prems(1) ok by (rule length_takeWhile_rel)
    have "\<And>k. matchHere ci re (drop k xs) = matchHere ci re (drop k ys)"
      using Cons.prems(1) by (intro rest list_all2_dropI)
    with n Plus show ?thesis by (simp only: matchHere.simps)
  qed
qed

lemma regex_match_rel:
  assumes "list_all2 R xs ys"
    and "\<And>it c d. it \<in> set re \<Longrightarrow> R c d \<Longrightarrow>
           atom_ok ci (case it of One a \<Rightarrow> a | Plus a \<Rightarrow> a) c =
           atom_ok ci (case it of One a \<Rightarrow> a | Plus a \<Rightarrow> a) d"
  shows "regex_match ci re xs = regex_match ci re ys"
  using assms(1)
proof (induction rule: list_all2_induct)
  case Nil
  show ?case by simp
next
  case (Cons x xs y ys)
  have "list_all2 R (x # xs) (y # ys)" using Cons by simp
  then have "matchHere ci re (x # xs) = matchHere ci re (y # ys)"
    using assms(2) by (rule matchHere_rel)
  with Cons.IH show ?case by (simp cong: option.case_cong)
qed

lemma same_letters_rel:
  "same_letters a b \<longleftrightarrow> list_all2 (\<lambda>c d. toUpperChar c = toUpperChar d) a b"
proof (induction a arbitrary: b)
  case Nil
  show ?case by (simp add: same_letters_def)
next
  case (Cons c a)
  show ?case using Cons.IH by (cases b) (auto simp: same_letters_def)
qed

lemma section_atoms_rel:
  assumes "it \<in> set (sectionRegex title)" and "toUpperChar c = toUpperChar d"
  shows "atom_ok True (case it of One a \<Rightarrow> a | Plus a \<Rightarrow> a) c =
         atom_ok True (case it of One a \<Rightarrow> a | Plus a \<Rightarrow> a) d"
proof -
  have "atom_ok True a c = atom_ok True a d" for a
    using assms(2) upper_eq_isDigit [OF assms(2)] upper_eq_isSpace [OF assms(2)]
    by (cases a) simp_all
  then show ?thesis by simp
qed

lemma header_chars_rel:
  assumes "toUpperChar c = toUpperChar d"
  shows "(c = CHR ''#'') = (d = CHR ''#'')" "(c = CHR '' '') = (d = CHR '' '')"
    "(c = CHR ''.'') = (d = CHR ''.'')"
proof -
  have "atom_ok True (Chr a) c = atom_ok True (Chr a) d" for a
    using assms by simp
  from this [of "CHR ''#''"] this [of "CHR '' ''"] this [of "CHR ''.''"]
  show "(c = CHR ''#'') = (d = CHR ''#'')" "(c = CHR '' '') = (d = CHR '' '')"
    "(c = CHR ''.'') = (d = CHR ''.'')"
    by (simp_all only: atom_ok_header_chars)
qed

lemma header_atoms_rel:
  assumes "it \<in> set headerRegex" and "toUpperChar c = toUpperChar d"
  shows "atom_ok False (case it of One a \<Rightarrow> a | Plus a \<Rightarrow> a) c =
         atom_ok False (case it of One a \<Rightarrow> a | Plus a \<Rightarrow> a) d"
proof -
  from assms(1) consider "it = One (Chr CHR ''#'')" | "it = One (Chr CHR '' '')"
    | "it = Plus Digit" | "it = One (Chr CHR ''.'')" | "it = Plus Space"
    unfolding headerRegex_def by auto
  then show ?thesis
  proof cases
    case 1
    then show ?thesis using header_chars_rel(1) [OF assms(2)] by (simp add: eq_commute)
  next
    case 2
    then show ?thesis using header_chars_rel(2) [OF assms(2)] by (simp add: eq_commute)
  next
    case 3
    then show ?thesis using upper_eq_isDigit [OF assms(2)] by simp
  next
    case 4
    then show ?thesis using header_chars_rel(3) [OF assms(2)] by (simp add: eq_commute)
  next
    case 5
    then show ?thesis using upper_eq_isSpace [OF assms(2)] by simp
  qed
qed

lemma same_letters_drop: "same_letters a b \<Longrightarrow> same_letters (drop n a) (drop n b)"
  by (simp add: same_letters_def drop_map [symmetric])

lemma same_letters_take: "same_letters a b \<Longrightarrow> same_letters (take n a) (take n b)"
  by (simp add: same_letters_def take_map [symmetric])

lemma locateSection_same_letters:
  assumes "same_letters content content'"
  shows "rel_option same_letters (locateSection content s) (locateSection content' s)"
proof -
  let ?R = "\<lambda>c d. toUpperChar c = toUpperChar d"
  from assms have r: "list_all2 ?R content content'" by (simp add: same_letters_rel)
  have m: "regex_match True (sectionRegex (Section.name s)) content' =
           regex_match True (sectionRegex (Section.name s)) content"
    by (rule regex_match_rel [OF r section_atoms_rel, symmetric])
  show ?thesis
  proof (cases "regex_match True (sectionRegex (Section.name s)) content")
    case None
    with m show ?thesis by (simp add: locateSection_def)
  next
    case (Some p)
    obtain i l where p: "p = (i, l)" by (cases p)
    from assms have d: "same_letters (drop l (drop i content)) (drop l (drop i content'))"
      by (intro same_letters_drop)
    then have "list_all2 ?R (drop l (drop i content)) (drop l (drop i content'))"
      by (simp add: same_letters_rel)
    then have n: "regex_match False headerRegex (drop l (drop i content')) =
          regex_match False headerRegex (drop l (drop i content))"
      by (rule regex_match_rel [OF _ header_atoms_rel, symmetric])
    from assms have "same_letters (drop i content) (drop i content')"
      by (rule same_letters_drop)
    moreover from this have "same_letters (take k (drop i content)) (take k (drop i content'))" for k
      by (rule same_letters_take)
    ultimately show ?thesis
      using Some p m n by (simp add: locateSection_def Let_def split: option.splits)
  qed
qed

lemma dropWhile_rel:
  assumes "list_all2 R xs ys" and "\<And>x y. R x y \<Longrightarrow> P x = Q y"
  shows "list_all2 R (dropWhile P xs) (dropWhile Q ys)"
  using assms(1)
proof (induction rule: list_all2_induct)
  case Nil
  show ?case by simp
next
  case (Cons x xs y ys)
  with assms(2) [of x y] show ?case by simp
qed

lemma split_ws_rel:
  assumes "list_all2 (\<lambda>c d. toUpperChar c = toUpperChar d) xs ys"
    and "list_all2 (\<lambda>c d. toUpperChar c = toUpperChar d) p q"
  shows "list_all2 (list_all2 (\<lambda>c d. toUpperChar c = toUpperChar d))
           (split_ws p xs) (split_ws q ys)"
  using assms
proof (induction p xs arbitrary: q ys rule: split_ws.induct)
  case (1 piece)
  then show ?case by simp
next
  case (2 piece c cs)
  from "2.prems"(1) obtain d ds where ys: "ys = d # ds"
    and r: "toUpperChar c = toUpperChar d"
    and rs: "list_all2 (\<lambda>c d. toUpperChar c = toUpperChar d) cs ds"
    by (auto simp: list_all2_Cons1)
  have sp: "isSpace c = isSpace d" using r by (rule upper_eq_isSpace)
  show ?case
  proof (cases "isSpace c")
    case True
    have "list_all2 (\<lambda>c d. toUpperChar c = toUpperChar d)
            (dropWhile isSpace cs) (dropWhile isSpace ds)"
      using rs upper_eq_isSpace by (rule dropWhile_rel)
    from "2.IH"(1) [OF True this, of "[]"] True sp ys "2.prems"(2) show ?thesis by simp
  next
    case False
    have "list_all2 (\<lambda>c d. toUpperChar c = toUpperChar d) (c # piece) (d # q)"
      using r "2.prems"(2) by simp
    from "2.IH"(2) [OF False rs this] False sp ys show ?thesis by simp
  qed
qed

lemma filter_rel:
  assumes "list_all2 R xs ys" and "\<And>x y. R x y \<Longrightarrow> P x = Q y"
  shows "list_all2 R (filter P xs) (filter Q ys)"
  using assms(1)
proof (induction rule: list_all2_induct)
  case Nil
  show ?case by simp
next
  case (Cons x xs y ys)
  with assms(2) [of x y] show ?case by simp
qed

lemma words_of_same_letters:
  assumes "same_letters t t'"
  shows "list_all2 same_letters (words_of t) (words_of t')"
proof -
  let ?R = "\<lambda>c d. toUpperChar c = toUpperChar d"
  from assms have "list_all2 ?R t t'" by (simp add: same_letters_rel)
  then have "list_all2 (list_all2 ?R) (split_ws [] t) (split_ws [] t')"
    by (rule split_ws_rel) simp
  then have "list_all2 (list_all2 ?R)
      (filter (\<lambda>w. length w > 0) (split_ws [] t)) (filter (\<lambda>w. length w > 0) (split_ws [] t'))"
    by (rule filter_rel) (simp add: list_all2_lengthD)
  then show ?thesis
    unfolding words_of_def same_letters_rel [abs_def] .
qed

lemma scoreSectionText_same_letters:
  assumes "case_insensitive_extractor ke" and "same_letters t t'"
  shows "scoreSectionText ke t s = scoreSectionText ke t' s"
proof -
  from assms have k: "set (extractKeywords ke t) = set (extractKeywords ke t')"
    by (simp add: case_insensitive_extractor_def)
  from words_of_same_letters [OF assms(2)]
  have w: "length (words_of t) = length (words_of t')" by (rule list_all2_lengthD)
  show ?thesis by (simp add: scoreSectionText_def Let_def k w)
qed

lemma evaluateSection_same_letters:
  assumes "case_insensitive_extractor ke" and "same_letters content content'"
  shows "evaluateSection ke content s = evaluateSection ke content' s"
proof -
  from locateSection_same_letters [OF assms(2), of s]
  consider "locateSection content s = None" "locateSection content' s = None"
    | t t' where "locateSection content s = Some t" "locateSection content' s = Some t'"
        "same_letters t t'"
    by (auto simp: option_rel_Some1 elim: option.rel_cases)
  then show ?thesis
  proof cases
    case 1
    then show ?thesis by (simp add: evaluateSection_def)
  next
    case 2
    with scoreSectionText_same_letters [OF assms(1) 2(3), of s] show ?thesis
      by (simp add: evaluateSection_def)
  qed
qed

lemma same_letters_upper: "same_letters content (map toUpperChar content)"
  by (simp add: same_letters_def toUpperChar_idem)

section \<open>The extractor of the spec\<close>

lemma toLowerCase_same_letters: "same_letters a b \<Longrightarrow> toLowerCase a = toLowerCase b"
  unfolding same_letters_rel toLowerCase_def
proof (induction rule: list_all2_induct)
  case Nil
  show ?case by simp
next
  case (Cons x xs y ys)
  with upper_eq_lower [of x y] show ?case by simp
qed

lemma all_digits_same_letters: "same_letters a b \<Longrightarrow> list_all isDigit a = list_all isDigit b"
  unfolding same_letters_rel
proof (induction rule: list_all2_induct)
  case Nil
  show ?case by simp
next
  case (Cons x xs y ys)
  with upper_eq_isDigit [of x y] show ?case by simp
qed

lemma map_toLowerCase_rel:
  "list_all2 same_letters xs ys \<Longrightarrow> map toLowerCase xs = map toLowerCase ys"
  by (induction rule: list_all2_induct) (simp_all add: toLowerCase_same_letters)

lemma keyword_extractor_spec_case_insensitive:
  "case_insensitive_extractor keyword_extractor_spec"
  unfolding case_insensitive_extractor_def
proof (intro allI impI)
  fix t t' assume "same_letters t t'"
  then have w: "list_all2 same_letters (words_of t) (words_of t')"
    by (rule words_of_same_letters)
  have "list_all2 same_letters (filter (\<lambda>w. \<not> list_all isDigit w) (words_of t))
          (filter (\<lambda>w. \<not> list_all isDigit w) (words_of t'))"
    using w by (rule filter_rel) (simp add: all_digits_same_letters)
  then have "map toLowerCase (filter (\<lambda>w. \<not> list_all isDigit w) (words_of t)) =
             map toLowerCase (filter (\<lambda>w. \<not> list_all isDigit w) (words_of t'))"
    by (rule map_toLowerCase_rel)
  then show "set (extractKeywords keyword_extractor_spec t) =
             set (extractKeywords keyword_extractor_spec t')"
    by (simp add: extractKeywords_def keyword_extractor_spec_def Let_def)
qed

lemma split_ws_no_space:
  assumes "w \<in> set (split_ws p xs)" and "\<not> list_ex isSpace p"
  shows "\<not> list_ex isSpace w"
  using assms
proof (induction p xs rule: split_ws.induct)
  case (1 piece)
  then show ?case by (simp add: list_ex_iff)
next
  case (2 piece c cs)
  show ?case
  proof (cases "isSpace c")
    case True
    with "2.prems" "2.IH"(1) [OF True] show ?thesis by (auto simp: list_ex_iff)
  next
    case False
    with "2.prems" "2.IH"(2) [OF False] show ?thesis by (auto simp: list_ex_iff)
  qed
qed

lemma has_whitespace_toLowerCase: "has_whitespace (toLowerCase w) = has_whitespace w"
  by (simp add: has_whitespace_def toLowerCase_def list_ex_iff isSpace_toLowerChar)

lemma keyword_extractor_spec_whitespace_free:
  "whitespace_free_tokens keyword_extractor_spec"
  unfolding whitespace_free_tokens_def
proof
  fix t
  have "\<not> has_whitespace w" if "w \<in> set (words_of t)" for w
    using that split_ws_no_space [of w "[]" t]
    by (simp add: words_of_def has_whitespace_def)
  then have "\<not> has_whitespace w"
    if "w \<in> set (map toLowerCase (filter (\<lambda>w. \<not> list_all isDigit w) (words_of t)))" for w
    using that by (auto simp: has_whitespace_toLowerCase)
  then show "list_all (\<lambda>w. \<not> has_whitespace w) (extractKeywords keyword_extractor_spec t)"
    by (simp add: extractKeywords_def keyword_extractor_spec_def Let_def list_all_iff)
qed

text \<open>
  Claim C7. Keyword matching is case-insensitive: for every document and every section
  whose name is plain text, changing only the letter case of the document, for example
  mapping it to upper case (\<open>same_letters_upper\<close>), leaves the missing keywords and the
  score that \<open>evaluateSection\<close> returns unchanged. The keyword extractor is a package
  outside the sources; what is asked of it is \<open>case_insensitive_extractor\<close>, which the
  extractor of the spec meets.
\<close>

theorem letter_case_does_not_matter:
  assumes "plain_name (Section.name s)"
    and "case_insensitive_extractor ke"
    and "same_letters content content'"
  shows "SectionResult.missingKeywords (evaluateSection ke content' s) =
           SectionResult.missingKeywords (evaluateSection ke content s) \<and>
         score (evaluateSection ke content' s) = score (evaluateSection ke content s)"
  using evaluateSection_same_letters [OF assms(2,3), of s] by simp

theorem letter_case_does_not_matter_witness:
  "case_insensitive_extractor keyword_extractor_spec \<and>
   same_letters ''## 2. Key Features: Benefits and unique ideas''
     ''## 2. KEY FEATURES: BENEFITS AND UNIQUE IDEAS'' \<and>
   SectionResult.missingKeywords
     (evaluateSection keyword_extractor_spec ''## 2. KEY FEATURES: BENEFITS AND UNIQUE IDEAS''
        \<lparr>Section.name = ''Key Features'',
         requiredKeywords = [''functionality'', ''benefits'', ''unique''],
         minWordCount = 150\<rparr>) = [''functionality''] \<and>
   score
     (evaluateSection keyword_extractor_spec ''## 2. KEY FEATURES: BENEFITS AND UNIQUE IDEAS''
        \<lparr>Section.name = ''Key Features'',
         requiredKeywords = [''functionality'', ''benefits'', ''unique''],
         minWordCount = 150\<rparr>) = Fin (1 / 3)"
proof -
  let ?c = "''## 2. Key Features: Benefits and unique ideas''"
  let ?u = "''## 2. KEY FEATURES: BENEFITS AND UNIQUE IDEAS''"
  let ?s = "\<lparr>Section.name = ''Key Features'',
         requiredKeywords = [''functionality'', ''benefits'', ''unique''],
         minWordCount = 150\<rparr>"
  have p: "plain_name (Section.name ?s)" by code_simp
  have k: "case_insensitive_extractor keyword_extractor_spec"
    by (rule keyword_extractor_spec_case_insensitive)
  have l: "same_letters ?c ?u" by code_simp
  have m: "SectionResult.missingKeywords (evaluateSection keyword_extractor_spec ?c ?s) =
             [''functionality'']" by code_simp
  have v: "score (evaluateSection keyword_extractor_spec ?c ?s) = Fin (1 / 3)" by code_simp
  show ?thesis using letter_case_does_not_matter [OF p k l] k l m v by simp
qed

section \<open>Keywords with white space\<close>

lemma keyword_not_found:
  assumes "whitespace_free_tokens ke" and "has_whitespace keyword"
  shows "\<not> keywordFound ke t keyword"
proof
  assume "keywordFound ke t keyword"
  then have "toLowerCase keyword \<in> set (extractKeywords ke t)" by (simp add: keywordFound_def)
  with assms(1) have "\<not> has_whitespace (toLowerCase keyword)"
    by (auto simp: whitespace_free_tokens_def list_all_iff)
  with assms(2) show False by (simp add: has_whitespace_toLowerCase)
qed

lemma evaluateSection_missing:
  "SectionResult.missingKeywords (evaluateSection ke content s) =
     (case locateSection content s of
        None \<Rightarrow> requiredKeywords s
      | Some t \<Rightarrow> filter (\<lambda>k. \<not> keywordFound ke t k) (requiredKeywords s))"
  by (simp add: evaluateSection_def scoreSectionText_missing split: option.splits)

lemma contribution_below_half:
  assumes "missing \<noteq> []" and "length missing \<le> length (requiredKeywords s)"
  shows "\<exists>q. js_mul (keywordScore missing s) (Fin (1 / 2)) = Fin q \<and> 0 \<le> q \<and> q < 1 / 2"
proof -
  let ?m = "length missing" and ?n = "length (requiredKeywords s)"
  from assms have m: "0 < ?m" and n: "0 < ?n" by auto
  then have r: "requiredKeywords s \<noteq> []" by auto
  define x :: rat where "x = of_nat ?m / of_nat ?n"
  have "0 < x" using m n by (simp add: x_def)
  moreover have "x \<le> 1"
    using assms(2) n by (simp add: x_def divide_le_eq_1)
  ultimately have b: "0 \<le> (1 - x) * (1 / 2) \<and> (1 - x) * (1 / 2) < 1 / 2"
    by simp
  have "js_mul (keywordScore missing s) (Fin (1 / 2)) = Fin ((1 - x) * (1 / 2))"
    by (simp add: keywordScore_Fin [OF r] x_def)
  with b show ?thesis by blast
qed

text \<open>
  Claim C9. For every document, a required keyword that contains white space, such as
  "next steps" in the section Conclusion of \<open>projectOverviewType\<close>, is never found when
  the tokens of the extractor are single words without white space: the keyword is
  among the missing keywords of its section, and what the keywords add to the score of
  the section is strictly less than 0.5.
\<close>

theorem keyword_with_whitespace_never_found:
  assumes "whitespace_free_tokens ke"
    and "keyword \<in> set (requiredKeywords s)"
    and "has_whitespace keyword"
  shows "keyword \<in> set (SectionResult.missingKeywords (evaluateSection ke content s)) \<and>
         (\<exists>q. keywordContribution (evaluateSection ke content s) s = Fin q \<and> q < 1 / 2) \<and>
         score (evaluateSection ke content s) =
           (case locateSection content s of
              None \<Rightarrow> Fin 0
            | Some t \<Rightarrow>
                js_add (if minWordCount s \<le> int (length (words_of t)) then Fin (1 / 2) else Fin 0)
                       (keywordContribution (evaluateSection ke content s) s))"
proof -
  let ?r = "evaluateSection ke content s"
  have in_missing: "keyword \<in> set (SectionResult.missingKeywords ?r)"
    using assms(2) keyword_not_found [OF assms(1,3)]
    by (simp add: evaluateSection_missing split: option.splits)
  then have ne: "SectionResult.missingKeywords ?r \<noteq> []" by auto
  have le: "length (SectionResult.missingKeywords ?r) \<le> length (requiredKeywords s)"
    by (simp add: evaluateSection_missing split: option.splits)
  from contribution_below_half [OF ne le]
  have c: "\<exists>q. keywordContribution ?r s = Fin q \<and> q < 1 / 2"
    by (auto simp: keywordContribution_def)
  have "score ?r =
           (case locateSection content s of
              None \<Rightarrow> Fin 0
            | Some t \<Rightarrow>
                js_add (if minWordCount s \<le> int (length (words_of t)) then Fin (1 / 2) else Fin 0)
                       (keywordContribution ?r s))"
    by (simp add: evaluateSection_def keywordContribution_def scoreSectionText_def Let_def
        split: option.splits)
  with in_missing c show ?thesis by simp
qed

theorem keyword_with_whitespace_never_found_witness:
  "whitespace_free_tokens keyword_extractor_spec \<and>
   has_whitespace ''next steps'' \<and>
   ''next steps'' \<in> set (SectionResult.missingKeywords
      (evaluateSection keyword_extractor_spec
         ''## 7. Conclusion In summary the future holds our next steps''
         (sections projectOverviewType ! 6))) \<and>
   keywordContribution
      (evaluateSection keyword_extractor_spec
         ''## 7. Conclusion In summary the future holds our next steps''
         (sections projectOverviewType ! 6)) (sections projectOverviewType ! 6) = Fin (1 / 3)"
proof -
  let ?c = "''## 7. Conclusion In summary the future holds our next steps''"
  let ?s = "sections projectOverviewType ! 6"
  have s: "?s = \<lparr>Section.name = ''Conclusion'',
      requiredKeywords = [''summary'', ''future'', ''next steps''], minWordCount = 75\<rparr>"
    by (simp add: projectOverviewType_def)
  have h1: "whitespace_free_tokens keyword_extractor_spec"
    by (rule keyword_extractor_spec_whitespace_free)
  have h2: "''next steps'' \<in> set (requiredKeywords ?s)" by (simp add: s)
  have h3: "has_whitespace ''next steps''" by code_simp
  have v: "keywordContribution (evaluateSection keyword_extractor_spec ?c ?s) ?s = Fin (1 / 3)"
    unfolding s by code_simp
  show ?thesis using keyword_with_whitespace_never_found [OF h1 h2 h3, of ?c] h1 h3 v by simp
qed

end
